theory Spec2Isabelle
  imports Main
begin

section \<open>Python strings\<close>

text \<open>
  A Python \<open>str\<close> is a sequence of Unicode code points; a code point is modelled as a
  natural number and a string as a list of them.  \<open>py ''...''\<close> writes an ASCII literal.
\<close>

type_synonym pystr = "nat list"

abbreviation py :: "string \<Rightarrow> pystr" where
  "py s \<equiv> map of_char s"

text \<open>
  \<open>str.isspace\<close>, \<open>str.strip\<close> and the pattern \<open>\s\<close> share one table: the code points
  U+0009..U+000D, U+001C..U+0020, U+0085, U+00A0, U+1680, U+2000..U+200A, U+2028, U+2029,
  U+202F, U+205F and U+3000.
\<close>

definition is_space :: "nat \<Rightarrow> bool" where
  "is_space c \<longleftrightarrow>
     (9 \<le> c \<and> c \<le> 13) \<or> (28 \<le> c \<and> c \<le> 32) \<or> c = 133 \<or> c = 160 \<or> c = 5760 \<or>
     (8192 \<le> c \<and> c \<le> 8202) \<or> c = 8232 \<or> c = 8233 \<or> c = 8239 \<or> c = 8287 \<or> c = 12288"

definition lstrip :: "pystr \<Rightarrow> pystr" where
  "lstrip s = dropWhile is_space s"

definition rstrip :: "pystr \<Rightarrow> pystr" where
  "rstrip s = rev (dropWhile is_space (rev s))"

definition strip :: "pystr \<Rightarrow> pystr" where
  "strip s = rstrip (lstrip s)"

text \<open>\<open>str(n)\<close> for a non-negative integer: its decimal digits.\<close>

fun str_nat :: "nat \<Rightarrow> pystr" where
  "str_nat n = (if n < 10 then [48 + n] else str_nat (n div 10) @ [48 + n mod 10])"

declare str_nat.simps [simp del]

text \<open>\<open>p\<close> is a prefix of \<open>s\<close> (\<open>s.startswith(p)\<close>).\<close>

definition starts_with :: "pystr \<Rightarrow> pystr \<Rightarrow> bool" where
  "starts_with p s \<longleftrightarrow> take (length p) s = p"

text \<open>\<open>needle in s\<close>: the substring test of Python.\<close>

fun contains :: "pystr \<Rightarrow> pystr \<Rightarrow> bool" where
  "contains needle [] = (needle = [])"
| "contains needle (c # cs) = (starts_with needle (c # cs) \<or> contains needle cs)"

section \<open>The translation backend\<close>

text \<open>
  The backend (deep_translator's GoogleTranslator) is outside the repository.  It is a
  pair of operations over a backend state \<open>'b\<close>; \<open>None\<close> is a raised exception.  Every
  call the program makes is recorded, with its outcome, in a log.
\<close>

record 'b backend =
  translate_batch :: "pystr list \<Rightarrow> 'b \<Rightarrow> pystr list option \<times> 'b"
  translate :: "pystr \<Rightarrow> 'b \<Rightarrow> pystr option \<times> 'b"

datatype call = BatchCall "pystr list" "pystr list option" | SingleCall pystr "pystr option"

fun batch_inputs :: "call list \<Rightarrow> pystr list" where
  "batch_inputs [] = []"
| "batch_inputs (BatchCall xs r # cs) = xs @ batch_inputs cs"
| "batch_inputs (SingleCall s r # cs) = batch_inputs cs"

fun single_inputs :: "call list \<Rightarrow> pystr list" where
  "single_inputs [] = []"
| "single_inputs (BatchCall xs r # cs) = single_inputs cs"
| "single_inputs (SingleCall s r # cs) = s # single_inputs cs"

section \<open>translate_html.py: batch_translate\<close>

text \<open>
  The de-duplication loop: \<open>seen\<close> is the set of strings met so far, \<open>uniq\<close> keeps the
  first occurrence of each string in order.
\<close>

fun dedup :: "pystr set \<Rightarrow> pystr list \<Rightarrow> pystr list" where
  "dedup seen [] = []"
| "dedup seen (s # ss) = (if s \<notin> seen then s # dedup (insert s seen) ss else dedup seen ss)"

definition uniq :: "pystr list \<Rightarrow> pystr list" where
  "uniq strings = dedup {} strings"

text \<open>\<open>[uniq[i:i + n] for i in range(0, len(uniq), n)]\<close>, for a positive \<open>n\<close>.\<close>

fun chunks :: "nat \<Rightarrow> 'a list \<Rightarrow> 'a list list" where
  "chunks n xs = (if n = 0 \<or> xs = [] then [] else take n xs # chunks n (drop n xs))"

declare chunks.simps [simp del]

text \<open>The inner fallback loop: one \<open>translate\<close> call per item, the item itself on failure.\<close>

fun translate_each :: "'b backend \<Rightarrow> pystr list \<Rightarrow> 'b \<Rightarrow> pystr list \<times> call list \<times> 'b" where
  "translate_each B [] \<sigma> = ([], [], \<sigma>)"
| "translate_each B (s # ss) \<sigma> =
     (case translate B s \<sigma> of (r, \<sigma>1) \<Rightarrow>
        (case translate_each B ss \<sigma>1 of (ts, log, \<sigma>2) \<Rightarrow>
           ((case r of Some t \<Rightarrow> t | None \<Rightarrow> s) # ts, SingleCall s r # log, \<sigma>2)))"

text \<open>The \<open>try\<close>/\<open>except\<close> around one chunk.\<close>

definition translate_chunk :: "'b backend \<Rightarrow> pystr list \<Rightarrow> 'b \<Rightarrow> pystr list \<times> call list \<times> 'b" where
  "translate_chunk B chunk \<sigma> =
     (case translate_batch B chunk \<sigma> of
        (Some ts, \<sigma>1) \<Rightarrow> (ts, [BatchCall chunk (Some ts)], \<sigma>1)
      | (None, \<sigma>1) \<Rightarrow>
          (case translate_each B chunk \<sigma>1 of (ts, log, \<sigma>2) \<Rightarrow>
             (ts, BatchCall chunk None # log, \<sigma>2)))"

text \<open>\<open>for original, translated in zip(chunk, translations): mapping[original] = translated\<close>\<close>

fun store_all :: "(pystr \<rightharpoonup> pystr) \<Rightarrow> (pystr \<times> pystr) list \<Rightarrow> (pystr \<rightharpoonup> pystr)" where
  "store_all m [] = m"
| "store_all m ((k, v) # kvs) = store_all (m(k \<mapsto> v)) kvs"

fun translate_chunks ::
  "'b backend \<Rightarrow> pystr list list \<Rightarrow> (pystr \<rightharpoonup> pystr) \<Rightarrow> 'b \<Rightarrow> (pystr \<rightharpoonup> pystr) \<times> call list \<times> 'b" where
  "translate_chunks B [] m \<sigma> = (m, [], \<sigma>)"
| "translate_chunks B (chunk # rest) m \<sigma> =
     (case translate_chunk B chunk \<sigma> of (ts, log1, \<sigma>1) \<Rightarrow>
        (case translate_chunks B rest (store_all m (zip chunk ts)) \<sigma>1 of (m', log2, \<sigma>2) \<Rightarrow>
           (m', log1 @ log2, \<sigma>2)))"

definition CHUNK :: nat where
  "CHUNK = 40"

definition batch_translate ::
  "'b backend \<Rightarrow> pystr list \<Rightarrow> 'b \<Rightarrow> (pystr \<rightharpoonup> pystr) \<times> call list \<times> 'b" where
  "batch_translate B strings \<sigma> = translate_chunks B (chunks CHUNK (uniq strings)) Map.empty \<sigma>"

section \<open>Regular-expression primitives\<close>

text \<open>
  The Unicode database is not part of the repository: \<open>\w\<close> and \<open>\d\<close> are fixed on ASCII
  and taken as parameters on the other code points.
\<close>

record unicode =
  uni_word :: "nat \<Rightarrow> bool"
  uni_digit :: "nat \<Rightarrow> bool"

definition is_word :: "unicode \<Rightarrow> nat \<Rightarrow> bool" where
  "is_word U c \<longleftrightarrow>
     (if c < 128 then (48 \<le> c \<and> c \<le> 57) \<or> (65 \<le> c \<and> c \<le> 90) \<or> c = 95 \<or> (97 \<le> c \<and> c \<le> 122)
      else uni_word U c)"

definition is_digit :: "unicode \<Rightarrow> nat \<Rightarrow> bool" where
  "is_digit U c \<longleftrightarrow> (if c < 128 then 48 \<le> c \<and> c \<le> 57 else uni_digit U c)"

text \<open>\<open>[A-Z]\<close> without flags.\<close>

definition is_upper :: "nat \<Rightarrow> bool" where
  "is_upper c \<longleftrightarrow> 65 \<le> c \<and> c \<le> 90"

text \<open>The character class of \<open>LATIN_RE\<close> (and of the same pattern written inline in
  translate_html.py): \<open>A-Z\<close>, \<open>a-z\<close>, U+00C0..U+00D6, U+00D8..U+00F6, U+00F8..U+00FF.\<close>

definition is_latin :: "nat \<Rightarrow> bool" where
  "is_latin c \<longleftrightarrow>
     (65 \<le> c \<and> c \<le> 90) \<or> (97 \<le> c \<and> c \<le> 122) \<or> (192 \<le> c \<and> c \<le> 214) \<or>
     (216 \<le> c \<and> c \<le> 246) \<or> (248 \<le> c \<and> c \<le> 255)"

definition has_latin :: "pystr \<Rightarrow> bool" where
  "has_latin text = list_ex is_latin text"

text \<open>
  A literal ASCII pattern character \<open>p\<close> under \<open>re.IGNORECASE\<close> matches its two cases, and
  \<open>i\<close> also U+0130 and U+0131, \<open>s\<close> also U+017F, \<open>k\<close> also U+212A.
\<close>

definition ci_eq :: "nat \<Rightarrow> nat \<Rightarrow> bool" where
  "ci_eq p c \<longleftrightarrow>
     c = p \<or> (97 \<le> p \<and> p \<le> 122 \<and> c + 32 = p) \<or> (65 \<le> p \<and> p \<le> 90 \<and> c = p + 32) \<or>
     ((p = 105 \<or> p = 73) \<and> (c = 304 \<or> c = 305)) \<or>
     ((p = 115 \<or> p = 83) \<and> c = 383) \<or>
     ((p = 107 \<or> p = 75) \<and> c = 8490)"

text \<open>\<open>[A-Za-z]\<close> under \<open>re.IGNORECASE\<close>.\<close>

definition is_alpha_ci :: "nat \<Rightarrow> bool" where
  "is_alpha_ci c \<longleftrightarrow>
     (65 \<le> c \<and> c \<le> 90) \<or> (97 \<le> c \<and> c \<le> 122) \<or> c = 304 \<or> c = 305 \<or> c = 383 \<or> c = 8490"

definition ci_starts_with :: "pystr \<Rightarrow> pystr \<Rightarrow> bool" where
  "ci_starts_with p s \<longleftrightarrow> length p \<le> length s \<and> list_all2 ci_eq p (take (length p) s)"

definition first_char :: "pystr \<Rightarrow> nat option" where
  "first_char s = (case s of [] \<Rightarrow> None | c # cs \<Rightarrow> Some c)"

text \<open>\<open>\b\<close> between the character before and the character after a position.\<close>

definition word_boundary :: "unicode \<Rightarrow> nat option \<Rightarrow> nat option \<Rightarrow> bool" where
  "word_boundary U prev nxt \<longleftrightarrow>
     (case prev of None \<Rightarrow> False | Some c \<Rightarrow> is_word U c) \<noteq>
     (case nxt of None \<Rightarrow> False | Some c \<Rightarrow> is_word U c)"

text \<open>The least \<open>i\<close> such that the suffix of \<open>s\<close> from \<open>i\<close> satisfies \<open>P\<close>: where a lazy
  \<open>[\s\S]*?\<close> stops.\<close>

fun find_from :: "(pystr \<Rightarrow> bool) \<Rightarrow> pystr \<Rightarrow> nat option" where
  "find_from P [] = None"
| "find_from P (c # cs) = (if P (c # cs) then Some 0 else map_option Suc (find_from P cs))"

text \<open>The greatest \<open>k\<close> up to a bound at which \<open>f\<close> succeeds: where a greedy repetition
  ends after backtracking.\<close>

fun last_fit :: "(nat \<Rightarrow> 'a option) \<Rightarrow> nat \<Rightarrow> 'a option" where
  "last_fit f 0 = f 0"
| "last_fit f (Suc k) = (case f (Suc k) of Some r \<Rightarrow> Some r | None \<Rightarrow> last_fit f k)"

text \<open>\<open>\s*=\s*\<close>: the rest of the text after it, if it matches.\<close>

definition eq_sign :: "pystr \<Rightarrow> pystr option" where
  "eq_sign r =
     (case dropWhile is_space r of
        [] \<Rightarrow> None
      | e # r2 \<Rightarrow> (if e = 61 then Some (dropWhile is_space r2) else None))"

text \<open>
  A matcher tells, for the rest of the text from some position, whether the pattern
  matches there, the length of the match (never zero for the patterns of this program)
  and its groups.  \<open>re_parts\<close> is the left-to-right scan of \<open>re.sub\<close> and \<open>re.finditer\<close>:
  the non-overlapping matches, leftmost first, and the characters between them.  Its
  second argument counts the characters still covered by the last match.
\<close>

datatype 'g part = Chr nat | Hit pystr 'g

fun re_parts :: "(pystr \<Rightarrow> (nat \<times> 'g) option) \<Rightarrow> nat \<Rightarrow> pystr \<Rightarrow> 'g part list" where
  "re_parts m k [] = []"
| "re_parts m (Suc k) (c # cs) = re_parts m k cs"
| "re_parts m 0 (c # cs) =
     (case m (c # cs) of
        None \<Rightarrow> Chr c # re_parts m 0 cs
      | Some (n, g) \<Rightarrow> Hit (take n (c # cs)) g # re_parts m (n - 1) cs)"

text \<open>\<open>re.finditer\<close>: the matches, each with its text (\<open>m.group(0)\<close>) and groups.\<close>

fun hits :: "'g part list \<Rightarrow> (pystr \<times> 'g) list" where
  "hits [] = []"
| "hits (Chr c # ps) = hits ps"
| "hits (Hit t g # ps) = (t, g) # hits ps"

definition finditer :: "(pystr \<Rightarrow> (nat \<times> 'g) option) \<Rightarrow> pystr \<Rightarrow> (pystr \<times> 'g) list" where
  "finditer m s = hits (re_parts m 0 s)"

text \<open>\<open>re.sub\<close> with a function as replacement; the function may update a state (the
  variables its closure captures).\<close>

fun sub_parts :: "(pystr \<Rightarrow> 'g \<Rightarrow> 'st \<Rightarrow> pystr \<times> 'st) \<Rightarrow> 'g part list \<Rightarrow> 'st \<Rightarrow> pystr \<times> 'st" where
  "sub_parts f [] st = ([], st)"
| "sub_parts f (Chr c # ps) st = (case sub_parts f ps st of (out, st') \<Rightarrow> (c # out, st'))"
| "sub_parts f (Hit t g # ps) st =
     (case f t g st of (r, st1) \<Rightarrow>
        (case sub_parts f ps st1 of (out, st2) \<Rightarrow> (r @ out, st2)))"

definition re_sub_st ::
  "(pystr \<Rightarrow> (nat \<times> 'g) option) \<Rightarrow> (pystr \<Rightarrow> 'g \<Rightarrow> 'st \<Rightarrow> pystr \<times> 'st) \<Rightarrow> pystr \<Rightarrow> 'st \<Rightarrow> pystr \<times> 'st" where
  "re_sub_st m f s st = sub_parts f (re_parts m 0 s) st"

definition re_sub :: "(pystr \<Rightarrow> (nat \<times> 'g) option) \<Rightarrow> (pystr \<Rightarrow> 'g \<Rightarrow> pystr) \<Rightarrow> pystr \<Rightarrow> pystr" where
  "re_sub m f s = fst (re_sub_st m (\<lambda>t g st. (f t g, st)) s ())"

text \<open>\<open>s.replace(old, new)\<close>: every non-overlapping occurrence, leftmost first; an empty
  \<open>old\<close> matches before every character and at the end.\<close>

definition m_literal :: "pystr \<Rightarrow> pystr \<Rightarrow> (nat \<times> unit) option" where
  "m_literal old s = (if starts_with old s then Some (length old, ()) else None)"

definition str_replace :: "pystr \<Rightarrow> pystr \<Rightarrow> pystr \<Rightarrow> pystr" where
  "str_replace old new s =
     (if old = [] then new @ concat (map (\<lambda>c. c # new) s)
      else re_sub (m_literal old) (\<lambda>t g. new) s)"

section \<open>translate_html.py\<close>

definition VISIBLE_ATTRS :: "pystr list" where
  "VISIBLE_ATTRS = [py ''alt'', py ''title'', py ''placeholder'', py ''aria-label'']"

subsection \<open>make_placeholders and restore_placeholders\<close>

text \<open>A \<open>dict\<close> keeps its keys in insertion order; assigning to a present key keeps its
  place.\<close>

type_synonym pydict = "(pystr \<times> pystr) list"

fun dict_set :: "pystr \<Rightarrow> pystr \<Rightarrow> pydict \<Rightarrow> pydict" where
  "dict_set k v [] = [(k, v)]"
| "dict_set k v ((k', v') # d) = (if k = k' then (k, v) # d else (k', v') # dict_set k v d)"

text \<open>\<open>_store\<close>: the key is numbered by the size of the dictionary.\<close>

definition store :: "pystr \<Rightarrow> pystr \<Rightarrow> pydict \<Rightarrow> pystr \<times> pydict" where
  "store kind content placeholders =
     (let key = py ''__PLACEHOLDER_'' @ kind @ py ''_'' @ str_nat (length placeholders) @ py ''__''
      in (key, dict_set key content placeholders))"

text \<open>\<open><!--[\s\S]*?-->\<close>\<close>

definition m_comment :: "pystr \<Rightarrow> (nat \<times> unit) option" where
  "m_comment s =
     (if starts_with (py ''<!--'') s then
        (case find_from (starts_with (py ''-->'')) (drop 4 s) of
           Some i \<Rightarrow> Some (4 + i + 3, ())
         | None \<Rightarrow> None)
      else None)"

text \<open>\<open><tag\b[\s\S]*?</tag>\<close> with \<open>re.IGNORECASE\<close>, for \<open>tag\<close> = \<open>script\<close>, \<open>style\<close>.\<close>

definition m_element :: "unicode \<Rightarrow> pystr \<Rightarrow> pystr \<Rightarrow> (nat \<times> unit) option" where
  "m_element U tag s =
     (let opening = py ''<'' @ tag; closing = py ''</'' @ tag @ py ''>'';
          rest = drop (length opening) s
      in if ci_starts_with opening s \<and>
            word_boundary U (Some (last (take (length opening) s))) (first_char rest) then
           (case find_from (ci_starts_with closing) rest of
              Some i \<Rightarrow> Some (length opening + i + length closing, ())
            | None \<Rightarrow> None)
         else None)"

definition make_placeholders :: "unicode \<Rightarrow> pystr \<Rightarrow> pystr \<times> pydict" where
  "make_placeholders U html =
     (case re_sub_st m_comment (\<lambda>t g. store (py ''COMMENT'') t) html [] of (html1, p1) \<Rightarrow>
        (case re_sub_st (m_element U (py ''script'')) (\<lambda>t g. store (py ''SCRIPT'') t) html1 p1 of (html2, p2) \<Rightarrow>
           re_sub_st (m_element U (py ''style'')) (\<lambda>t g. store (py ''STYLE'') t) html2 p2))"

fun restore_placeholders :: "pystr \<Rightarrow> pydict \<Rightarrow> pystr" where
  "restore_placeholders html [] = html"
| "restore_placeholders html ((key, v) # placeholders) =
     restore_placeholders (str_replace key v html) placeholders"

subsection \<open>find_text_nodes and find_attr_values\<close>

text \<open>\<open>placeholder_re.fullmatch\<close>, for \<open>__PLACEHOLDER_[A-Z]+_\d+__\<close>.\<close>

definition is_placeholder :: "unicode \<Rightarrow> pystr \<Rightarrow> bool" where
  "is_placeholder U t \<longleftrightarrow>
     starts_with (py ''__PLACEHOLDER_'') t \<and>
     (let r = drop 14 t; kind = takeWhile is_upper r; r2 = drop (length kind) r
      in kind \<noteq> [] \<and> starts_with (py ''_'') r2 \<and>
         (let r3 = drop 1 r2; ds = takeWhile (is_digit U) r3
          in ds \<noteq> [] \<and> drop (length ds) r3 = py ''__''))"

text \<open>\<open>>([^<>]+)<\<close>; the group is the text between the brackets.\<close>

definition m_text :: "pystr \<Rightarrow> (nat \<times> pystr) option" where
  "m_text s =
     (case s of
        [] \<Rightarrow> None
      | c # r \<Rightarrow>
          (if c = 62 then
             (let t = takeWhile (\<lambda>x. x \<noteq> 60 \<and> x \<noteq> 62) r
              in if t \<noteq> [] \<and> starts_with [60] (drop (length t) r) then Some (length t + 2, t)
                 else None)
           else None))"

fun keep_text_nodes :: "unicode \<Rightarrow> (pystr \<times> pystr) list \<Rightarrow> pystr list" where
  "keep_text_nodes U [] = []"
| "keep_text_nodes U ((whole, text) # ms) =
     (if strip text = [] then keep_text_nodes U ms
      else if is_placeholder U (strip text) then keep_text_nodes U ms
      else if \<not> has_latin text then keep_text_nodes U ms
      else text # keep_text_nodes U ms)"

definition find_text_nodes :: "unicode \<Rightarrow> pystr \<Rightarrow> pystr list" where
  "find_text_nodes U html = keep_text_nodes U (finditer m_text html)"

text \<open>
  \<open>attr\s*=\s*("([^"]*)"|'([^']*)')\<close> with \<open>re.IGNORECASE\<close>.  The groups kept are the text
  of \<open>attr\s*=\s*\<close> (group 1 of the pattern of \<open>replace_attr_values\<close>), the quote
  character and the value between the quotes.
\<close>

definition m_attr :: "pystr \<Rightarrow> pystr \<Rightarrow> (nat \<times> pystr \<times> nat \<times> pystr) option" where
  "m_attr attr s =
     (if ci_starts_with attr s then
        (case eq_sign (drop (length attr) s) of
           None \<Rightarrow> None
         | Some [] \<Rightarrow> None
         | Some (q # r4) \<Rightarrow>
             (if q = 34 \<or> q = 39 then
                (let v = takeWhile (\<lambda>x. x \<noteq> q) r4
                 in if starts_with [q] (drop (length v) r4) then
                      Some (length s - length r4 + length v + 1,
                            take (length s - Suc (length r4)) s, q, v)
                    else None)
              else None))
      else None)"

fun keep_attr_values :: "unicode \<Rightarrow> pystr \<Rightarrow> (pystr \<times> pystr \<times> nat \<times> pystr) list \<Rightarrow> (pystr \<times> nat \<times> pystr) list" where
  "keep_attr_values U attr [] = []"
| "keep_attr_values U attr ((whole, prefix, q, v) # ms) =
     (if v \<noteq> [] \<and> \<not> is_placeholder U (strip v) \<and> has_latin v then
        (attr, q, v) # keep_attr_values U attr ms
      else keep_attr_values U attr ms)"

definition find_attr_values :: "unicode \<Rightarrow> pystr \<Rightarrow> (pystr \<times> nat \<times> pystr) list" where
  "find_attr_values U html =
     concat (map (\<lambda>attr. keep_attr_values U attr (finditer (m_attr attr) html)) VISIBLE_ATTRS)"

subsection \<open>replace_between_tags and replace_attr_values\<close>

text \<open>\<open>re.match(r"^\s*", x).group(0)\<close> and \<open>re.search(r"\s*$", x).group(0)\<close>.\<close>

definition leading_ws :: "pystr \<Rightarrow> pystr" where
  "leading_ws x = takeWhile is_space x"

definition trailing_ws :: "pystr \<Rightarrow> pystr" where
  "trailing_ws x = rev (takeWhile is_space (rev x))"

text \<open>\<open>x[len(leading_ws):len(x) - len(trailing_ws)]\<close>\<close>

definition core_of :: "pystr \<Rightarrow> pystr" where
  "core_of x = drop (length (leading_ws x)) (take (length x - length (trailing_ws x)) x)"

definition lookup_translation :: "(pystr \<rightharpoonup> pystr) \<Rightarrow> pystr \<Rightarrow> pystr" where
  "lookup_translation mapping x =
     (case mapping x of
        Some t \<Rightarrow> t
      | None \<Rightarrow> (case mapping (core_of x) of Some t \<Rightarrow> t | None \<Rightarrow> core_of x))"

definition repl_text :: "(pystr \<rightharpoonup> pystr) \<Rightarrow> pystr \<Rightarrow> pystr \<Rightarrow> pystr" where
  "repl_text mapping whole original =
     (if core_of original = [] then whole
      else py ''>'' @ leading_ws original @ lookup_translation mapping original @
           trailing_ws original @ py ''<'')"

definition replace_between_tags :: "pystr \<Rightarrow> (pystr \<rightharpoonup> pystr) \<Rightarrow> pystr" where
  "replace_between_tags html mapping = re_sub m_text (repl_text mapping) html"

definition repl_attr :: "(pystr \<rightharpoonup> pystr) \<Rightarrow> pystr \<Rightarrow> pystr \<times> nat \<times> pystr \<Rightarrow> pystr" where
  "repl_attr mapping whole g =
     (case g of (prefix, q, v) \<Rightarrow>
        (if v = [] then whole
         else prefix @ [q] @ leading_ws v @ lookup_translation mapping v @
              trailing_ws v @ [q]))"

definition make_attr_replacer :: "(pystr \<rightharpoonup> pystr) \<Rightarrow> pystr \<Rightarrow> pystr \<Rightarrow> pystr" where
  "make_attr_replacer mapping html attr = re_sub (m_attr attr) (repl_attr mapping) html"

definition replace_attr_values :: "pystr \<Rightarrow> (pystr \<rightharpoonup> pystr) \<Rightarrow> pystr" where
  "replace_attr_values html mapping = foldl (make_attr_replacer mapping) html VISIBLE_ATTRS"

subsection \<open>switch_lang_attr\<close>

text \<open>
  \<open>(<html\b[^>]*\blang\s*=\s*)"it(?:-[A-Za-z]+)?"\<close> with \<open>re.IGNORECASE\<close>, and the same
  pattern with single quotes.  \<open>m_lang_value\<close> is the quoted value for the quote character
  \<open>q\<close>, \<open>m_lang_at\<close> is \<open>\blang\s*=\s*\<close> followed by the value, \<open>m_html_lang\<close> the whole
  pattern: the greedy \<open>[^>]*\<close> gives way from its longest run to the empty one.  The
  group returned is the text of group 1.  \<open>hb\<close> tells whether \<open>\b\<close> follows \<open><html\<close>.
\<close>

definition m_lang_value :: "nat \<Rightarrow> pystr \<Rightarrow> nat option" where
  "m_lang_value q r =
     (case r of
        [] \<Rightarrow> None
      | c # r1 \<Rightarrow>
          (if c = q \<and> ci_starts_with (py ''it'') r1 then
             (case drop 2 r1 of
                [] \<Rightarrow> None
              | d # r3 \<Rightarrow>
                  (if d = 45 then
                     (let ls = takeWhile is_alpha_ci r3
                      in if ls \<noteq> [] \<and> starts_with [q] (drop (length ls) r3)
                         then Some (length ls + 5) else None)
                   else if d = q then Some 4
                   else None))
           else None))"

definition m_lang_at :: "unicode \<Rightarrow> (pystr \<Rightarrow> nat option) \<Rightarrow> nat option \<Rightarrow> pystr \<Rightarrow> (nat \<times> nat) option" where
  "m_lang_at U vm prev r =
     (if word_boundary U prev (first_char r) \<and> ci_starts_with (py ''lang'') r then
        (case eq_sign (drop 4 r) of
           None \<Rightarrow> None
         | Some r3 \<Rightarrow>
             (case vm r3 of
                Some n \<Rightarrow> Some (length r - length r3, n)
              | None \<Rightarrow> None))
      else None)"

definition m_html_lang :: "unicode \<Rightarrow> bool \<Rightarrow> (pystr \<Rightarrow> nat option) \<Rightarrow> pystr \<Rightarrow> (nat \<times> pystr) option" where
  "m_html_lang U hb vm s =
     (if ci_starts_with (py ''<html'') s \<and>
         (hb \<longrightarrow> word_boundary U (Some (last (take 5 s))) (first_char (drop 5 s))) then
        (let rest = drop 5 s; run = takeWhile (\<lambda>x. x \<noteq> 62) rest
         in last_fit
              (\<lambda>k. case m_lang_at U vm (Some (s ! (4 + k))) (drop k rest) of
                     Some (g, n) \<Rightarrow> Some (5 + k + g + n, take (5 + k + g) s)
                   | None \<Rightarrow> None)
              (length run))
      else None)"

text \<open>The replacement templates are \<open>\1\"th\"\<close> and \<open>\1'th'\<close>: in a template a backslash
  before a character that is neither a letter nor a digit stays, with that character.\<close>

definition switch_lang_attr :: "unicode \<Rightarrow> pystr \<Rightarrow> pystr" where
  "switch_lang_attr U html =
     (let html1 = re_sub (m_html_lang U True (m_lang_value 34))
                    (\<lambda>t g. g @ [92, 34] @ py ''th'' @ [92, 34]) html
      in re_sub (m_html_lang U True (m_lang_value 39))
           (\<lambda>t g. g @ [39] @ py ''th'' @ [39]) html1)"

subsection \<open>main\<close>

text \<open>
  The run on the text of the input file.  \<open>NoText\<close> is the exit without output when
  nothing translatable is found, \<open>Written\<close> carries the text written to the output file.
  The calls made to the backend are returned with it.
\<close>

datatype outcome = NoText | Written pystr

definition main :: "unicode \<Rightarrow> 'b backend \<Rightarrow> pystr \<Rightarrow> 'b \<Rightarrow> outcome \<times> call list \<times> 'b" where
  "main U B html \<sigma> =
     (case make_placeholders U html of (protected_html, placeholders) \<Rightarrow>
        (let text_nodes = find_text_nodes U protected_html;
             attr_occ = find_attr_values U protected_html;
             attr_texts = map (\<lambda>(a, q, v). v) attr_occ;
             all_texts = text_nodes @ attr_texts
         in if all_texts = [] then (NoText, [], \<sigma>)
            else
              (case batch_translate B all_texts \<sigma> of (mapping, log, \<sigma>') \<Rightarrow>
                 (let translated1 = replace_between_tags protected_html mapping;
                      translated2 = replace_attr_values translated1 mapping;
                      translated3 = switch_lang_attr U translated2;
                      translated4 = restore_placeholders translated3 placeholders
                  in (Written translated4, log, \<sigma>')))))"

section \<open>translate_html_ru.py\<close>

text \<open>\<open>CYRILLIC_RE\<close>: U+0400..U+04FF.\<close>

definition is_cyrillic :: "nat \<Rightarrow> bool" where
  "is_cyrillic c \<longleftrightarrow> 1024 \<le> c \<and> c \<le> 1279"

definition has_cyrillic :: "pystr \<Rightarrow> bool" where
  "has_cyrillic text = list_ex is_cyrillic text"

subsection \<open>protect_blocks and restore_blocks\<close>

text \<open>\<open>tag.upper()\<close>, for the ASCII tag names the program passes.\<close>

definition upper :: "pystr \<Rightarrow> pystr" where
  "upper s = map (\<lambda>c. if 97 \<le> c \<and> c \<le> 122 then c - 32 else c) s"

definition block_token :: "pystr \<Rightarrow> nat \<Rightarrow> pystr" where
  "block_token tag i = py ''@@'' @ upper tag @ py ''_'' @ str_nat i @ py ''@@''"

text \<open>\<open>(<tag[^>]*>)([\s\S]*?)(</tag>)\<close> with \<open>re.IGNORECASE\<close>.\<close>

definition m_block :: "pystr \<Rightarrow> pystr \<Rightarrow> (nat \<times> unit) option" where
  "m_block tag s =
     (let opening = py ''<'' @ tag; closing = py ''</'' @ tag @ py ''>'';
          rest = drop (length opening) s;
          run = takeWhile (\<lambda>x. x \<noteq> 62) rest;
          rest2 = drop (length run) rest
      in if ci_starts_with opening s \<and> starts_with [62] rest2 then
           (case find_from (ci_starts_with closing) (drop 1 rest2) of
              Some i \<Rightarrow> Some (length opening + length run + 1 + i + length closing, ())
            | None \<Rightarrow> None)
         else None)"

definition protect_blocks :: "pystr \<Rightarrow> pystr \<Rightarrow> pystr \<times> pystr list" where
  "protect_blocks content tag =
     re_sub_st (m_block tag) (\<lambda>t g saved. (block_token tag (length saved), saved @ [t])) content []"

fun restore_from :: "pystr \<Rightarrow> pystr \<Rightarrow> nat \<Rightarrow> pystr list \<Rightarrow> pystr" where
  "restore_from content tag idx [] = content"
| "restore_from content tag idx (block # saved) =
     restore_from (str_replace (block_token tag idx) block content) tag (Suc idx) saved"

definition restore_blocks :: "pystr \<Rightarrow> pystr \<Rightarrow> pystr list \<Rightarrow> pystr" where
  "restore_blocks content tag saved = restore_from content tag 0 saved"

subsection \<open>BatchTranslator\<close>

text \<open>
  The fields of the object: the cache, the pending list of
  (placeholder, prefix, stripped, suffix, original), and whether \<open>self.tr\<close> is a
  translator (it is \<open>None\<close> when deep_translator is missing or fails to start).
\<close>

record batch_translator =
  cache :: "pystr \<rightharpoonup> pystr"
  pending :: "(pystr \<times> pystr \<times> pystr \<times> pystr \<times> pystr) list"
  has_tr :: bool

definition new_translator :: "bool \<Rightarrow> batch_translator" where
  "new_translator available = \<lparr>cache = Map.empty, pending = [], has_tr = available\<rparr>"

text \<open>\<open>_translate_list\<close>; its \<open>try\<close>/\<open>except\<close> is the one of \<open>translate_chunk\<close>.\<close>

definition translate_list ::
  "'b backend \<Rightarrow> batch_translator \<Rightarrow> pystr list \<Rightarrow> 'b \<Rightarrow> pystr list \<times> call list \<times> 'b" where
  "translate_list B bt items \<sigma> =
     (if items = [] then ([], [], \<sigma>)
      else if \<not> has_tr bt then (items, [], \<sigma>)
      else translate_chunk B items \<sigma>)"

definition skip_markers :: "pystr list" where
  "skip_markers = [py ''http://'', py ''https://'', py ''www.'', py ''@'', py ''{'', py ''}'']"

definition translate_preserving_ws :: "pystr \<Rightarrow> batch_translator \<Rightarrow> pystr \<times> batch_translator" where
  "translate_preserving_ws s bt =
     (case cache bt s of
        Some r \<Rightarrow> (r, bt)
      | None \<Rightarrow>
          (let stripped = strip s
           in if stripped = [] then (s, bt\<lparr>cache := (cache bt)(s \<mapsto> s)\<rparr>)
              else if has_cyrillic stripped \<and> \<not> has_latin stripped then
                (s, bt\<lparr>cache := (cache bt)(s \<mapsto> s)\<rparr>)
              else if list_ex (\<lambda>x. contains x stripped) skip_markers then
                (s, bt\<lparr>cache := (cache bt)(s \<mapsto> s)\<rparr>)
              else
                (let prefix = take (length s - length (lstrip s)) s;
                     suffix = drop (length (rstrip s)) s;
                     placeholder = py ''@@T_'' @ str_nat (length (pending bt)) @ py ''@@''
                 in (placeholder,
                     bt\<lparr>pending := pending bt @ [(placeholder, prefix, stripped, suffix, s)],
                        cache := (cache bt)(s \<mapsto> placeholder)\<rparr>))))"

text \<open>The loop over the chunks of \<open>batch_texts\<close>.\<close>

fun translate_all ::
  "'b backend \<Rightarrow> batch_translator \<Rightarrow> pystr list list \<Rightarrow> 'b \<Rightarrow> pystr list \<times> call list \<times> 'b" where
  "translate_all B bt [] \<sigma> = ([], [], \<sigma>)"
| "translate_all B bt (chunk # rest) \<sigma> =
     (case translate_list B bt chunk \<sigma> of (ts, log1, \<sigma>1) \<Rightarrow>
        (case translate_all B bt rest \<sigma>1 of (ts', log2, \<sigma>2) \<Rightarrow>
           (ts @ ts', log1 @ log2, \<sigma>2)))"

text \<open>The loop over \<open>zip(self._pending, translated_all)\<close>.\<close>

fun replace_pending ::
  "((pystr \<times> pystr \<times> pystr \<times> pystr \<times> pystr) \<times> pystr) list \<Rightarrow> pystr \<Rightarrow> (pystr \<rightharpoonup> pystr) \<Rightarrow>
   pystr \<times> (pystr \<rightharpoonup> pystr)" where
  "replace_pending [] content c = (content, c)"
| "replace_pending (((placeholder, prefix, stripped, suffix, original), tr_text) # rest) content c =
     (let result = prefix @ tr_text @ suffix
      in replace_pending rest (str_replace placeholder result content) (c(original \<mapsto> result)))"

definition chunk_size :: nat where
  "chunk_size = 80"

definition process_batches ::
  "'b backend \<Rightarrow> pystr \<Rightarrow> batch_translator \<Rightarrow> 'b \<Rightarrow> (pystr \<times> batch_translator) \<times> call list \<times> 'b" where
  "process_batches B content bt \<sigma> =
     (if pending bt = [] then ((content, bt), [], \<sigma>)
      else
        (let batch_texts = map (\<lambda>(placeholder, prefix, stripped, suffix, original). stripped) (pending bt)
         in case translate_all B bt (chunks chunk_size batch_texts) \<sigma> of (translated_all, log, \<sigma>') \<Rightarrow>
              (case replace_pending (zip (pending bt) translated_all) content (cache bt) of
                 (content', c') \<Rightarrow> ((content', bt\<lparr>cache := c', pending := []\<rparr>), log, \<sigma>'))))"

subsection \<open>translate_attributes and translate_textnodes\<close>

definition attrs :: "pystr list" where
  "attrs = [py ''alt'', py ''title'', py ''placeholder'', py ''aria-label'',
            py ''aria-placeholder'', py ''data-title'']"

text \<open>\<open>(attr\s*=\s*")(.*?)(")\<close> with \<open>re.IGNORECASE\<close>, for the quote character \<open>q\<close>; the
  dot matches no newline.  The groups kept are group 1 and group 2.\<close>

definition m_attr_q :: "nat \<Rightarrow> pystr \<Rightarrow> pystr \<Rightarrow> (nat \<times> pystr \<times> pystr) option" where
  "m_attr_q q attr s =
     (if ci_starts_with attr s then
        (case eq_sign (drop (length attr) s) of
           None \<Rightarrow> None
         | Some [] \<Rightarrow> None
         | Some (c # r4) \<Rightarrow>
             (if c = q then
                (let v = takeWhile (\<lambda>x. x \<noteq> q \<and> x \<noteq> 10) r4
                 in if starts_with [q] (drop (length v) r4) then
                      Some (length s - length r4 + length v + 1,
                            take (length s - length r4) s, v)
                    else None)
              else None))
      else None)"

definition repl_q :: "nat \<Rightarrow> pystr \<Rightarrow> pystr \<times> pystr \<Rightarrow> batch_translator \<Rightarrow> pystr \<times> batch_translator" where
  "repl_q q whole g bt =
     (case g of (g1, v) \<Rightarrow>
        (if \<not> has_latin v then (whole, bt)
         else (case translate_preserving_ws v bt of (translated, bt') \<Rightarrow>
                 (g1 @ translated @ [q], bt'))))"

fun translate_attrs_loop :: "pystr list \<Rightarrow> pystr \<Rightarrow> batch_translator \<Rightarrow> pystr \<times> batch_translator" where
  "translate_attrs_loop [] content bt = (content, bt)"
| "translate_attrs_loop (attr # rest) content bt =
     (case re_sub_st (m_attr_q 34 attr) (repl_q 34) content bt of (content1, bt1) \<Rightarrow>
        (case re_sub_st (m_attr_q 39 attr) (repl_q 39) content1 bt1 of (content2, bt2) \<Rightarrow>
           translate_attrs_loop rest content2 bt2))"

definition translate_attributes ::
  "'b backend \<Rightarrow> pystr \<Rightarrow> batch_translator \<Rightarrow> 'b \<Rightarrow> (pystr \<times> batch_translator) \<times> call list \<times> 'b" where
  "translate_attributes B content bt \<sigma> =
     (case translate_attrs_loop attrs content bt of (content1, bt1) \<Rightarrow>
        process_batches B content1 bt1 \<sigma>)"

definition repl_inner :: "pystr \<Rightarrow> pystr \<Rightarrow> batch_translator \<Rightarrow> pystr \<times> batch_translator" where
  "repl_inner whole inner bt =
     (if inner = [] \<or> \<not> has_latin inner then (whole, bt)
      else (case translate_preserving_ws inner bt of (translated, bt') \<Rightarrow>
              (py ''>'' @ translated @ py ''<'', bt')))"

definition translate_textnodes ::
  "'b backend \<Rightarrow> pystr \<Rightarrow> batch_translator \<Rightarrow> 'b \<Rightarrow> (pystr \<times> batch_translator) \<times> call list \<times> 'b" where
  "translate_textnodes B content bt \<sigma> =
     (case re_sub_st m_text repl_inner content bt of (content1, bt1) \<Rightarrow>
        process_batches B content1 bt1 \<sigma>)"

subsection \<open>main\<close>

text \<open>\<open>(<html[^>]*\blang\s*=\s*")it(\")\<close>: the value is exactly \<open>it\<close> between two quotes.\<close>

definition m_lang_value_ru :: "nat \<Rightarrow> pystr \<Rightarrow> nat option" where
  "m_lang_value_ru q r =
     (case r of
        [] \<Rightarrow> None
      | c # r1 \<Rightarrow>
          (if c = q \<and> ci_starts_with (py ''it'') r1 \<and> starts_with [q] (drop 2 r1) then Some 4
           else None))"

definition switch_lang_ru :: "unicode \<Rightarrow> pystr \<Rightarrow> pystr" where
  "switch_lang_ru U html =
     (let html1 = re_sub (m_html_lang U False (m_lang_value_ru 34))
                    (\<lambda>t g. g @ [34] @ py ''ru'' @ [34]) html
      in re_sub (m_html_lang U False (m_lang_value_ru 39))
           (\<lambda>t g. g @ [39] @ py ''ru'' @ [39]) html1)"

text \<open>The run on the text of the input file: the text written to the output file and
  the calls made to the backend.\<close>

definition main_ru :: "unicode \<Rightarrow> 'b backend \<Rightarrow> bool \<Rightarrow> pystr \<Rightarrow> 'b \<Rightarrow> pystr \<times> call list \<times> 'b" where
  "main_ru U B available html0 \<sigma> =
     (let html1 = switch_lang_ru U html0
      in case protect_blocks html1 (py ''style'') of (html2, styles) \<Rightarrow>
         (case protect_blocks html2 (py ''script'') of (html3, scripts) \<Rightarrow>
            (case translate_attributes B html3 (new_translator available) \<sigma> of ((html4, bt1), log1, \<sigma>1) \<Rightarrow>
               (case translate_textnodes B html4 bt1 \<sigma>1 of ((html5, bt2), log2, \<sigma>2) \<Rightarrow>
                  (let html6 = restore_blocks html5 (py ''script'') scripts;
                       html7 = restore_blocks html6 (py ''style'') styles
                   in (html7, log1 @ log2, \<sigma>2))))))"

section \<open>Auxiliary notions for the properties\<close>

text \<open>The single-item calls of a log with their outcomes, and the translation the
  fallback loop keeps for one of them.\<close>

fun single_results :: "call list \<Rightarrow> (pystr \<times> pystr option) list" where
  "single_results [] = []"
| "single_results (BatchCall xs r # cs) = single_results cs"
| "single_results (SingleCall s r # cs) = (s, r) # single_results cs"

fun fallback :: "pystr \<times> pystr option \<Rightarrow> pystr" where
  "fallback (s, None) = s"
| "fallback (s, Some t) = t"

definition well_formed :: "'b backend \<Rightarrow> bool" where
  "well_formed B \<longleftrightarrow> (\<forall>xs \<sigma> ts \<sigma>'. translate_batch B xs \<sigma> = (Some ts, \<sigma>') \<longrightarrow> length ts = length xs)"

text \<open>A backend whose every call raises.\<close>

definition failing_backend :: "unit backend" where
  "failing_backend = \<lparr>translate_batch = (\<lambda>xs \<sigma>. (None, \<sigma>)), translate = (\<lambda>s \<sigma>. (None, \<sigma>))\<rparr>"

text \<open>Concrete inputs: Unicode tables with no word character and no digit beyond ASCII
  (the examples are ASCII), a backend that returns every text as it is, and a backend
  that translates the words \<open>Hello World\<close> and keeps the whitespace it is given.\<close>

definition ascii_tables :: unicode where
  "ascii_tables = \<lparr>uni_word = (\<lambda>c. False), uni_digit = (\<lambda>c. False)\<rparr>"

definition identity_backend :: "unit backend" where
  "identity_backend =
     \<lparr>translate_batch = (\<lambda>xs \<sigma>. (Some xs, \<sigma>)), translate = (\<lambda>s \<sigma>. (Some s, \<sigma>))\<rparr>"

definition french :: "pystr \<Rightarrow> pystr" where
  "french s =
     leading_ws s @
     (if core_of s = py ''Hello World'' then py ''Bonjour le monde'' else core_of s) @
     trailing_ws s"

definition french_backend :: "unit backend" where
  "french_backend =
     \<lparr>translate_batch = (\<lambda>xs \<sigma>. (Some (map french xs), \<sigma>)),
      translate = (\<lambda>s \<sigma>. (Some (french s), \<sigma>))\<rparr>"

text \<open>
  Notions for translate_html_ru.py: the original string and the stripped core of a
  pending entry; whether a text contains one of the markers of \<open>translate_preserving_ws\<close>;
  \<open>sendable\<close>, the conjunction of the three checks a string passes before it is queued;
  \<open>feed\<close>, the translator after a sequence of \<open>translate_preserving_ws\<close> calls; and the
  pending lists none of whose cores contains a marker.
\<close>

fun pending_original :: "pystr \<times> pystr \<times> pystr \<times> pystr \<times> pystr \<Rightarrow> pystr" where
  "pending_original (placeholder, prefix, stripped, suffix, original) = original"

fun pending_core :: "pystr \<times> pystr \<times> pystr \<times> pystr \<times> pystr \<Rightarrow> pystr" where
  "pending_core (placeholder, prefix, stripped, suffix, original) = stripped"

definition has_marker :: "pystr \<Rightarrow> bool" where
  "has_marker x = list_ex (\<lambda>m. contains m x) skip_markers"

definition sendable :: "pystr \<Rightarrow> bool" where
  "sendable s \<longleftrightarrow>
     strip s \<noteq> [] \<and> \<not> (has_cyrillic (strip s) \<and> \<not> has_latin (strip s)) \<and> \<not> has_marker (strip s)"

definition feed :: "pystr list \<Rightarrow> batch_translator \<Rightarrow> batch_translator" where
  "feed ss bt = fold (\<lambda>s b. snd (translate_preserving_ws s b)) ss bt"


text \<open>
  Notions for the protection round trip.  \<open>skips key P X\<close>: the literal \<open>key\<close> matches at
  no position of \<open>P\<close> in the text \<open>P @ X\<close>.  \<open>text_of\<close> and \<open>flatten\<close> give back the text a
  scan was made of.  \<open>render tag k\<close> is the text \<open>protect_blocks\<close> builds from a scan: the
  matches replaced by the tokens numbered from \<open>k\<close>.  \<open>wfree_runs W Q ps\<close>: the word \<open>W\<close>
  occurs in none of the runs of characters between the matches of the scan \<open>ps\<close>, the first
  run being preceded by \<open>Q\<close>.  \<open>word_of tag\<close> is the tag in upper case with its underscore,
  the text between the \<open>@@\<close> and the number of a token.  \<open>digits_val\<close> reads decimal digits.
\<close>

definition skips :: "pystr \<Rightarrow> pystr \<Rightarrow> pystr \<Rightarrow> bool" where
  "skips key P X \<longleftrightarrow> (\<forall>i < length P. \<not> starts_with key (drop i P @ X))"

fun text_of :: "'g part \<Rightarrow> pystr" where
  "text_of (Chr c) = [c]"
| "text_of (Hit t g) = t"

definition flatten :: "'g part list \<Rightarrow> pystr" where
  "flatten ps = concat (map text_of ps)"

definition digits_val :: "pystr \<Rightarrow> nat" where
  "digits_val ds = foldl (\<lambda>a d. 10 * a + (d - 48)) 0 ds"

fun render :: "pystr \<Rightarrow> nat \<Rightarrow> 'g part list \<Rightarrow> pystr" where
  "render tag k [] = []"
| "render tag k (Chr c # ps) = c # render tag k ps"
| "render tag k (Hit t g # ps) = block_token tag k @ render tag (Suc k) ps"

fun wfree_runs :: "pystr \<Rightarrow> pystr \<Rightarrow> 'g part list \<Rightarrow> bool" where
  "wfree_runs W Q [] = (\<not> contains W Q)"
| "wfree_runs W Q (Chr c # ps) = wfree_runs W (Q @ [c]) ps"
| "wfree_runs W Q (Hit t g # ps) = (\<not> contains W Q \<and> wfree_runs W [] ps)"

definition word_of :: "pystr \<Rightarrow> pystr" where
  "word_of tag = upper tag @ [95]"

text \<open>
  Notions for the passes of translate_html_ru.py.  \<open>attr_scan q attr\<close> is one
  substitution of \<open>translate_attributes\<close> (the pattern of \<open>attr\<close> with the quote \<open>q\<close> and
  its replacement function), \<open>text_scan\<close> the substitution of \<open>translate_textnodes\<close>, and
  \<open>write_back\<close> the text that \<open>process_batches\<close> returns.

  \<open>scans_alone m P Y\<close>: at every position of \<open>P\<close> the pattern matches in the text \<open>P @ Y\<close>
  as it does in \<open>P\<close> alone, and a match there ends inside \<open>P\<close>; no match that starts in
  \<open>P\<close> reaches into \<open>Y\<close>.

  \<open>consistent\<close> describes the translator during a run: the cache maps a string that is
  not sendable to itself, and every pending entry stands for a sendable string, under a
  placeholder made of the characters of \<open>@@T_n@@\<close>.

  \<open>latin_values\<close>, \<open>attr_segments\<close>, \<open>text_segments\<close> and \<open>run_segments\<close> list the
  strings passed to \<open>translate_preserving_ws\<close>, in order: the values with a Latin letter
  among the matches of one attribute pattern, the values met by the loop over the
  attribute names, the text nodes met by the text pass, and all of them for a run.
\<close>

definition attr_scan :: "nat \<Rightarrow> pystr \<Rightarrow> pystr \<Rightarrow> batch_translator \<Rightarrow> pystr \<times> batch_translator" where
  "attr_scan q attr content bt = re_sub_st (m_attr_q q attr) (repl_q q) content bt"

definition text_scan :: "pystr \<Rightarrow> batch_translator \<Rightarrow> pystr \<times> batch_translator" where
  "text_scan content bt = re_sub_st m_text repl_inner content bt"

definition write_back :: "'b backend \<Rightarrow> pystr \<Rightarrow> batch_translator \<Rightarrow> 'b \<Rightarrow> pystr" where
  "write_back B content bt \<sigma> = fst (fst (process_batches B content bt \<sigma>))"

definition scans_alone :: "(pystr \<Rightarrow> (nat \<times> 'g) option) \<Rightarrow> pystr \<Rightarrow> pystr \<Rightarrow> bool" where
  "scans_alone m P Y \<longleftrightarrow>
     (\<forall>i < length P. m (drop i P @ Y) = m (drop i P) \<and>
        (case m (drop i P) of None \<Rightarrow> True | Some (n, g) \<Rightarrow> i + n \<le> length P))"




definition latin_values :: "(pystr \<times> pystr \<times> pystr) list \<Rightarrow> pystr list" where
  "latin_values ms = filter has_latin (map (\<lambda>(whole, g1, v). v) ms)"

fun attr_segments :: "pystr list \<Rightarrow> pystr \<Rightarrow> batch_translator \<Rightarrow> pystr list" where
  "attr_segments [] content bt = []"
| "attr_segments (attr # rest) content bt =
     (case attr_scan 34 attr content bt of (content1, bt1) \<Rightarrow>
        (case attr_scan 39 attr content1 bt1 of (content2, bt2) \<Rightarrow>
           latin_values (finditer (m_attr_q 34 attr) content) @
           latin_values (finditer (m_attr_q 39 attr) content1) @
           attr_segments rest content2 bt2))"

definition text_segments :: "pystr \<Rightarrow> pystr list" where
  "text_segments content = filter (\<lambda>s. s \<noteq> [] \<and> has_latin s) (map snd (finditer m_text content))"

definition run_segments :: "unicode \<Rightarrow> 'b backend \<Rightarrow> bool \<Rightarrow> pystr \<Rightarrow> 'b \<Rightarrow> pystr list" where
  "run_segments U B available html0 \<sigma> =
     (case protect_blocks (switch_lang_ru U html0) (py ''style'') of (html2, styles) \<Rightarrow>
        (case protect_blocks html2 (py ''script'') of (html3, scripts) \<Rightarrow>
           attr_segments attrs html3 (new_translator available) @
           text_segments (fst (fst (translate_attributes B html3 (new_translator available) \<sigma>)))))"

section \<open>Properties\<close>

subsection \<open>De-duplication and batching\<close>

lemma fallback_case: "(case r of Some t \<Rightarrow> t | None \<Rightarrow> s) = fallback (s, r)"
  by (cases r) auto

lemma dedup_set: "set (dedup seen xs) = set xs - seen"
  by (induction xs arbitrary: seen) auto

lemma dedup_distinct: "distinct (dedup seen xs)"
  by (induction xs arbitrary: seen) (auto simp: dedup_set)

lemma uniq_set: "set (uniq xs) = set xs"
  by (simp add: uniq_def dedup_set)

lemma uniq_distinct: "distinct (uniq xs)"
  by (simp add: uniq_def dedup_distinct)

lemma concat_chunks: "0 < n \<Longrightarrow> concat (chunks n xs) = xs"
proof (induction n xs rule: chunks.induct)
  case (1 n xs)
  then show ?case by (subst chunks.simps) auto
qed

lemma translate_each_shape:
  "translate_each B xs \<sigma> = (ts, log, \<sigma>') \<Longrightarrow>
     map fst (single_results log) = xs \<and> ts = map fallback (single_results log) \<and>
     batch_inputs log = [] \<and> single_inputs log = xs"
  by (induction xs arbitrary: \<sigma> ts log \<sigma>')
     (auto simp: fallback_case split: prod.splits)

lemma translate_each_length: "translate_each B xs \<sigma> = (ts, log, \<sigma>') \<Longrightarrow> length ts = length xs"
  using translate_each_shape [of B xs \<sigma> ts log \<sigma>'] by (metis length_map)

lemma translate_chunk_batch_inputs:
  "translate_chunk B chunk \<sigma> = (ts, log, \<sigma>') \<Longrightarrow> batch_inputs log = chunk"
  by (auto simp: translate_chunk_def split: prod.splits option.splits dest: translate_each_shape)

lemma batch_inputs_append: "batch_inputs (xs @ ys) = batch_inputs xs @ batch_inputs ys"
  by (induction xs rule: batch_inputs.induct) auto

lemma translate_chunks_batch_inputs:
  "translate_chunks B cs m \<sigma> = (m', log, \<sigma>') \<Longrightarrow> batch_inputs log = concat cs"
  by (induction cs arbitrary: m \<sigma> m' log \<sigma>')
     (auto simp: batch_inputs_append split: prod.splits dest: translate_chunk_batch_inputs)

lemma batch_translate_inputs:
  "batch_translate B strings \<sigma> = (m, log, \<sigma>') \<Longrightarrow> batch_inputs log = uniq strings"
  by (auto simp: batch_translate_def CHUNK_def concat_chunks dest: translate_chunks_batch_inputs)


lemma store_all_dom: "dom (store_all m kvs) = dom m \<union> fst ` set kvs"
proof (induction kvs arbitrary: m)
  case Nil
  then show ?case by simp
next
  case (Cons kv kvs)
  obtain k v where kv: "kv = (k, v)" by (cases kv) auto
  have "dom (store_all m (kv # kvs)) = dom (m(k \<mapsto> v)) \<union> fst ` set kvs"
    unfolding kv store_all.simps by (rule Cons.IH)
  then show ?case by (auto simp: kv)
qed

lemma translate_chunk_length:
  "well_formed B \<Longrightarrow> translate_chunk B chunk \<sigma> = (ts, log, \<sigma>') \<Longrightarrow> length ts = length chunk"
  by (auto simp: translate_chunk_def well_formed_def split: prod.splits option.splits dest: translate_each_length)

lemma translate_chunks_dom:
  "well_formed B \<Longrightarrow> translate_chunks B cs m \<sigma> = (m', log, \<sigma>') \<Longrightarrow> dom m' = dom m \<union> set (concat cs)"
proof (induction cs arbitrary: m \<sigma> m' log \<sigma>')
  case Nil
  then show ?case by simp
next
  case (Cons c cs)
  obtain ts l1 s1 where c: "translate_chunk B c \<sigma> = (ts, l1, s1)" by (cases "translate_chunk B c \<sigma>") auto
  have len: "length ts = length c" using translate_chunk_length [OF Cons.prems(1) c] .
  obtain m2 l2 s2 where r: "translate_chunks B cs (store_all m (zip c ts)) s1 = (m2, l2, s2)"
    by (cases "translate_chunks B cs (store_all m (zip c ts)) s1") auto
  have "m' = m2" using Cons.prems(2) c r by simp
  moreover have "dom m2 = dom (store_all m (zip c ts)) \<union> set (concat cs)"
    using Cons.IH [OF Cons.prems(1) r] .
  moreover have "fst ` set (zip c ts) = set c" using len
    by (metis map_fst_zip set_map)
  ultimately show ?case by (auto simp: store_all_dom)
qed

lemma batch_translate_dom:
  "well_formed B \<Longrightarrow> dom (fst (batch_translate B strings \<sigma>)) = set strings"
  using translate_chunks_dom [of B "chunks CHUNK (uniq strings)" Map.empty \<sigma>]
  by (cases "batch_translate B strings \<sigma>") (auto simp: batch_translate_def CHUNK_def concat_chunks uniq_set)


lemma store_all_other: "s \<notin> fst ` set kvs \<Longrightarrow> store_all m kvs s = m s"
  by (induction kvs arbitrary: m) auto

lemma store_all_const:
  "s \<in> fst ` set kvs \<Longrightarrow> \<forall>(k, v) \<in> set kvs. k = s \<longrightarrow> v = t \<Longrightarrow> store_all m kvs s = Some t"
proof (induction kvs arbitrary: m)
  case Nil
  then show ?case by simp
next
  case (Cons kv kvs)
  obtain k v where kv: "kv = (k, v)" by (cases kv) auto
  show ?case
  proof (cases "s \<in> fst ` set kvs")
    case True
    then show ?thesis using Cons by (auto simp: kv)
  next
    case False
    then have "k = s" "v = t" using Cons.prems by (auto simp: kv)
    then show ?thesis using False by (simp add: kv store_all_other)
  qed
qed

lemma translate_each_const:
  "\<forall>\<sigma>. fst (translate B s \<sigma>) = r \<Longrightarrow> translate_each B xs \<sigma> = (ts, log, \<sigma>') \<Longrightarrow>
     \<forall>(k, v) \<in> set (zip xs ts). k = s \<longrightarrow> v = fallback (s, r)"
proof (induction xs arbitrary: \<sigma> ts log \<sigma>')
  case Nil
  then show ?case by simp
next
  case (Cons x xs)
  obtain r1 s1 where a: "translate B x \<sigma> = (r1, s1)" by (cases "translate B x \<sigma>") auto
  obtain ts2 l2 s2 where b: "translate_each B xs s1 = (ts2, l2, s2)"
    by (cases "translate_each B xs s1") auto
  have ts: "ts = (case r1 of Some t \<Rightarrow> t | None \<Rightarrow> x) # ts2" using Cons.prems(2) a b by simp
  have "x = s \<Longrightarrow> r1 = r" using Cons.prems(1) a by (metis fst_conv)
  then show ?case using Cons.IH [OF Cons.prems(1) b] by (auto simp: ts fallback_case)
qed

lemma translate_chunks_Cons_failed:
  assumes "\<forall>xs \<sigma>. fst (translate_batch B xs \<sigma>) = None"
    and "translate_chunks B (c # cs) m \<sigma> = (m', log, \<sigma>')"
  shows "\<exists>s0 ts l1 s1 l2. translate_each B c s0 = (ts, l1, s1) \<and>
           translate_chunks B cs (store_all m (zip c ts)) s1 = (m', l2, \<sigma>')"
proof -
  obtain s0 where tb: "translate_batch B c \<sigma> = (None, s0)"
    using assms(1) by (metis fst_conv surj_pair)
  obtain ts l1 s1 where te: "translate_each B c s0 = (ts, l1, s1)"
    by (cases "translate_each B c s0") auto
  have tc: "translate_chunk B c \<sigma> = (ts, BatchCall c None # l1, s1)"
    by (simp add: translate_chunk_def tb te)
  obtain m2 l2 s2 where r: "translate_chunks B cs (store_all m (zip c ts)) s1 = (m2, l2, s2)"
    by (cases "translate_chunks B cs (store_all m (zip c ts)) s1") auto
  have "m' = m2" "\<sigma>' = s2" using assms(2) by (simp_all add: tc r)
  then show ?thesis using te r by blast
qed

lemma translate_chunks_other:
  assumes "\<forall>xs \<sigma>. fst (translate_batch B xs \<sigma>) = None"
  shows "translate_chunks B cs m \<sigma> = (m', log, \<sigma>') \<Longrightarrow> s \<notin> set (concat cs) \<Longrightarrow> m' s = m s"
proof (induction cs arbitrary: m \<sigma> m' log \<sigma>')
  case Nil
  then show ?case by simp
next
  case (Cons c cs)
  obtain s0 ts l1 s1 l2 where te: "translate_each B c s0 = (ts, l1, s1)"
    and r: "translate_chunks B cs (store_all m (zip c ts)) s1 = (m', l2, \<sigma>')"
    using translate_chunks_Cons_failed [OF assms Cons.prems(1)] by blast
  have "fst ` set (zip c ts) = set c" using translate_each_length [OF te] by (metis map_fst_zip set_map)
  then show ?case using Cons.IH [OF r] Cons.prems(2) by (simp add: store_all_other)
qed

lemma translate_chunks_fallback:
  assumes "\<forall>xs \<sigma>. fst (translate_batch B xs \<sigma>) = None" and "\<forall>\<sigma>. fst (translate B s \<sigma>) = r"
  shows "translate_chunks B cs m \<sigma> = (m', log, \<sigma>') \<Longrightarrow> s \<in> set (concat cs) \<Longrightarrow>
         m' s = Some (fallback (s, r))"
proof (induction cs arbitrary: m \<sigma> m' log \<sigma>')
  case Nil
  then show ?case by simp
next
  case (Cons c cs)
  obtain s0 ts l1 s1 l2 where te: "translate_each B c s0 = (ts, l1, s1)"
    and r: "translate_chunks B cs (store_all m (zip c ts)) s1 = (m', l2, \<sigma>')"
    using translate_chunks_Cons_failed [OF assms(1) Cons.prems(1)] by blast
  have fstz: "fst ` set (zip c ts) = set c"
    using translate_each_length [OF te] by (metis map_fst_zip set_map)
  show ?case
  proof (cases "s \<in> set (concat cs)")
    case True
    then show ?thesis using Cons.IH [OF r] by simp
  next
    case False
    then have "s \<in> set c" using Cons.prems(2) by simp
    then have "store_all m (zip c ts) s = Some (fallback (s, r))"
      using store_all_const [of s "zip c ts" "fallback (s, r)" m]
        translate_each_const [OF assms(2) te] fstz by blast
    then show ?thesis using translate_chunks_other [OF assms(1) r False] by simp
  qed
qed

text \<open>
  Claim C7.  When the batch call for a chunk raises, the chunk is translated by one
  \<open>translate\<close> call per item, in order, and an item whose call raises keeps its own text;
  \<open>_translate_list\<close> of translate_html_ru.py behaves as that chunk translation.  No
  segment is dropped: when successful batch calls return as many items as they are given,
  the mapping of \<open>batch_translate\<close> is defined on every input string, and when every
  batch call raises an item maps to the single-item result or, if that raises, to itself.
  No exception leaves \<open>batch_translate\<close>: it is a total function.
\<close>

theorem batch_failure_fallback:
  "(fst (translate_batch B chunk \<sigma>) = None \<longrightarrow>
      (\<exists>log \<sigma>'. translate_chunk B chunk \<sigma> =
                  (map fallback (single_results log), BatchCall chunk None # log, \<sigma>') \<and>
               map fst (single_results log) = chunk \<and> batch_inputs log = [])) \<and>
   (has_tr bt \<and> chunk \<noteq> [] \<longrightarrow> translate_list B bt chunk \<sigma> = translate_chunk B chunk \<sigma>) \<and>
   (well_formed B \<longrightarrow> dom (fst (batch_translate B strings \<sigma>)) = set strings) \<and>
   ((\<forall>xs \<sigma>. fst (translate_batch B xs \<sigma>) = None) \<and> (\<forall>\<sigma>. fst (translate B s \<sigma>) = r) \<and>
    s \<in> set strings \<longrightarrow> fst (batch_translate B strings \<sigma>) s = Some (fallback (s, r)))"
proof (intro conjI impI)
  assume f: "fst (translate_batch B chunk \<sigma>) = None"
  then obtain s0 where tb: "translate_batch B chunk \<sigma> = (None, s0)" by (metis fst_conv surj_pair)
  obtain ts l1 s1 where te: "translate_each B chunk s0 = (ts, l1, s1)"
    by (cases "translate_each B chunk s0") auto
  have "translate_chunk B chunk \<sigma> = (ts, BatchCall chunk None # l1, s1)"
    by (simp add: translate_chunk_def tb te)
  then show "\<exists>log \<sigma>'. translate_chunk B chunk \<sigma> =
                  (map fallback (single_results log), BatchCall chunk None # log, \<sigma>') \<and>
               map fst (single_results log) = chunk \<and> batch_inputs log = []"
    using translate_each_shape [OF te] by auto
next
  assume "has_tr bt \<and> chunk \<noteq> []"
  then show "translate_list B bt chunk \<sigma> = translate_chunk B chunk \<sigma>"
    by (simp add: translate_list_def)
next
  assume "well_formed B"
  then show "dom (fst (batch_translate B strings \<sigma>)) = set strings" by (rule batch_translate_dom)
next
  assume a: "(\<forall>xs \<sigma>. fst (translate_batch B xs \<sigma>) = None) \<and> (\<forall>\<sigma>. fst (translate B s \<sigma>) = r) \<and> s \<in> set strings"
  obtain m log s' where bt: "translate_chunks B (chunks CHUNK (uniq strings)) Map.empty \<sigma> = (m, log, s')"
    by (cases "translate_chunks B (chunks CHUNK (uniq strings)) Map.empty \<sigma>") auto
  have "s \<in> set (concat (chunks CHUNK (uniq strings)))" using a by (simp add: concat_chunks CHUNK_def uniq_set)
  then have "m s = Some (fallback (s, r))" using translate_chunks_fallback [OF _ _ bt] a by blast
  then show "fst (batch_translate B strings \<sigma>) s = Some (fallback (s, r))"
    by (simp add: batch_translate_def bt)
qed

theorem batch_failure_fallback_witness:
  "fst (translate_batch failing_backend [py ''Ciao''] ()) = None \<and>
   well_formed failing_backend \<and>
   has_tr (new_translator True) \<and>
   translate_list failing_backend (new_translator True) [py ''Ciao''] () =
     ([py ''Ciao''], [BatchCall [py ''Ciao''] None, SingleCall (py ''Ciao'') None], ()) \<and>
   dom (fst (batch_translate failing_backend [py ''Ciao'', py ''Ciao''] ())) = {py ''Ciao''} \<and>
   fst (batch_translate failing_backend [py ''Ciao'', py ''Ciao''] ()) (py ''Ciao'') = Some (py ''Ciao'')"
proof -
  have h1: "fst (translate_batch failing_backend [py ''Ciao''] ()) = None"
    by (simp add: failing_backend_def)
  have h2: "well_formed failing_backend" by (simp add: well_formed_def failing_backend_def)
  have h3: "has_tr (new_translator True) \<and> [py ''Ciao''] \<noteq> []" by (simp add: new_translator_def)
  have h4: "(\<forall>xs \<sigma>. fst (translate_batch failing_backend xs \<sigma>) = None) \<and>
    (\<forall>\<sigma>. fst (translate failing_backend (py ''Ciao'') \<sigma>) = None) \<and> py ''Ciao'' \<in> set [py ''Ciao'', py ''Ciao'']"
    by (simp add: failing_backend_def)
  note t = batch_failure_fallback [of failing_backend "[py ''Ciao'']" "()" "new_translator True"
      "[py ''Ciao'', py ''Ciao'']" "py ''Ciao''" None]
  have a: "translate_list failing_backend (new_translator True) [py ''Ciao''] () =
     ([py ''Ciao''], [BatchCall [py ''Ciao''] None, SingleCall (py ''Ciao'') None], ())"
    using t h3 by (simp add: translate_chunk_def failing_backend_def)
  have b: "dom (fst (batch_translate failing_backend [py ''Ciao'', py ''Ciao''] ())) = {py ''Ciao''}"
    using t h2 by simp
  have c: "fst (batch_translate failing_backend [py ''Ciao'', py ''Ciao''] ()) (py ''Ciao'') = Some (py ''Ciao'')"
    using t h4 by simp
  show ?thesis using h1 h2 h3 a b c by simp
qed

subsection \<open>Evaluation on concrete documents\<close>

text \<open>Rewrite rules that run the definitions on literal strings, testing one character
  at a time.\<close>

lemma re_parts_Cons:
  "re_parts m k (c # cs) =
     (if k = 0 then
        (case m (c # cs) of
           None \<Rightarrow> Chr c # re_parts m 0 cs
         | Some (n, g) \<Rightarrow> Hit (take n (c # cs)) g # re_parts m (n - 1) cs)
      else re_parts m (k - 1) cs)"
  by (cases k) simp_all

lemma starts_with_Nil: "starts_with [] s = True"
  by (simp add: starts_with_def)

lemma starts_with_Cons_Nil: "starts_with (p # ps) [] = False"
  by (simp add: starts_with_def)

lemma starts_with_Cons: "starts_with (p # ps) (c # cs) = (if p = c then starts_with ps cs else False)"
  by (auto simp: starts_with_def)

lemma ci_starts_with_Nil: "ci_starts_with [] s = True"
  by (simp add: ci_starts_with_def)

lemma ci_starts_with_Cons_Nil: "ci_starts_with (p # ps) [] = False"
  by (simp add: ci_starts_with_def)

lemma ci_starts_with_Cons:
  "ci_starts_with (p # ps) (c # cs) = (if ci_eq p c then ci_starts_with ps cs else False)"
  by (auto simp: ci_starts_with_def)

lemma str_nat_small: "n < 10 \<Longrightarrow> str_nat n = [48 + n]"
  by (simp add: str_nat.simps)

lemma str_nat_large: "\<not> n < 10 \<Longrightarrow> str_nat n = str_nat (n div 10) @ [48 + n mod 10]"
  by (subst str_nat.simps) simp

lemmas ev_re = str_nat_small str_nat_large Let_def eq_sign_def re_sub_def re_sub_st_def re_parts_Cons
  finditer_def starts_with_Nil starts_with_Cons_Nil starts_with_Cons
  ci_starts_with_Nil ci_starts_with_Cons_Nil ci_starts_with_Cons ci_eq_def
  word_boundary_def first_char_def is_word_def is_digit_def is_upper_def is_space_def
  is_alpha_ci_def is_latin_def has_latin_def str_replace_def m_literal_def ascii_tables_def

lemmas ev_it = main_def make_placeholders_def m_comment_def m_element_def store_def
  find_text_nodes_def find_attr_values_def m_text_def m_attr_def is_placeholder_def
  VISIBLE_ATTRS_def strip_def lstrip_def rstrip_def
  batch_translate_def uniq_def chunks.simps CHUNK_def translate_chunk_def
  replace_between_tags_def replace_attr_values_def repl_text_def repl_attr_def
  make_attr_replacer_def lookup_translation_def core_of_def leading_ws_def trailing_ws_def
  switch_lang_attr_def m_html_lang_def m_lang_at_def m_lang_value_def

lemmas ev_ru = main_ru_def switch_lang_ru_def m_lang_value_ru_def m_html_lang_def m_lang_at_def
  protect_blocks_def m_block_def block_token_def upper_def restore_blocks_def
  new_translator_def translate_list_def translate_chunk_def translate_preserving_ws_def
  skip_markers_def has_cyrillic_def is_cyrillic_def strip_def lstrip_def rstrip_def
  process_batches_def chunk_size_def chunks.simps translate_attributes_def attrs_def
  m_attr_q_def repl_q_def translate_textnodes_def repl_inner_def m_text_def

text \<open>
  Claim C2 (the code departs from it).  With the backend that returns every text
  unchanged, translate_html.py does not write the input back: \<open>find_text_nodes\<close> hands the
  text node with its surrounding whitespace to the backend, and \<open>replace_between_tags\<close>
  wraps the answer in that whitespace again.  The document \<open><p> Ciao </p>\<close> comes out
  as \<open><p>  Ciao  </p>\<close>.
\<close>

theorem identity_backend_doubles_whitespace:
  "fst (main ascii_tables identity_backend (py ''<p> Ciao </p>'') ()) =
     Written (py ''<p>  Ciao  </p>'')"
  by (simp add: ev_re ev_it identity_backend_def)

text \<open>
  Claim C3 (the code departs from it).  In translate_html.py a comment inside a script
  element is replaced by its token before the script is stored, and
  \<open>restore_placeholders\<close> substitutes the comment token before the script token is back in
  the text: the script body of the output holds the token, not the comment.
\<close>

theorem script_body_keeps_comment_token:
  "fst (main ascii_tables identity_backend (py ''<p>Ciao</p><script><!--x--></script>'') ()) =
     Written (py ''<p>Ciao</p><script>__PLACEHOLDER_COMMENT_0__</script>'')"
  by (simp add: ev_re ev_it identity_backend_def)

text \<open>
  Claim C5 (the code departs from it).  \<open>find_text_nodes\<close> skips a text node only when the
  whole stripped node is a token; a token with text around it is sent to the backend as
  part of that text.
\<close>

theorem token_inside_text_sent_to_backend:
  "batch_inputs (fst (snd (main ascii_tables identity_backend (py ''<p>Ciao <!--c--> mondo</p>'') ()))) =
     [py ''Ciao __PLACEHOLDER_COMMENT_0__ mondo'']"
  by (simp add: ev_re ev_it identity_backend_def)

text \<open>
  Claim C6 (the code departs from it).  translate_html.py batches the text node as it
  stands, whitespace included, not its core; with a backend that keeps the whitespace it
  is given, the two-space margins of \<open>  Hello World  \<close> come out as four spaces.
\<close>

theorem raw_text_batched_not_core:
  "main ascii_tables french_backend (py ''<p>  Hello World  </p>'') () =
     (Written (py ''<p>    Bonjour le monde    </p>''),
      [BatchCall [py ''  Hello World  ''] (Some [py ''  Bonjour le monde  ''])], ())"
  by (simp add: ev_re ev_it french_backend_def french_def)

text \<open>
  Claim C8 (the code departs from it).  For a double-quoted value the replacement
  template of \<open>switch_lang_attr\<close> is \<open>\1\"th\"\<close>; the backslashes stay in the output, so
  \<open><html lang="it-IT">\<close> becomes \<open><html lang=\"th\">\<close> (34 is the double quote, 92 the
  backslash).
\<close>

theorem double_quoted_lang_gets_backslashes:
  "switch_lang_attr ascii_tables (py ''<html lang='' @ [34] @ py ''it-IT'' @ [34] @ py ''>'') =
     py ''<html lang='' @ [92, 34] @ py ''th'' @ [92, 34] @ py ''>''"
  by (simp add: ev_re ev_it)

subsection \<open>The translator of translate_html_ru.py\<close>

lemma tpw_cached: "cache bt s = Some r \<Longrightarrow> translate_preserving_ws s bt = (r, bt)"
  by (simp add: translate_preserving_ws_def)

lemma tpw_skip:
  "cache bt s = None \<Longrightarrow> \<not> sendable s \<Longrightarrow>
     translate_preserving_ws s bt = (s, bt\<lparr>cache := (cache bt)(s \<mapsto> s)\<rparr>)"
  by (auto simp: translate_preserving_ws_def sendable_def has_marker_def Let_def)

lemma tpw_queue:
  "cache bt s = None \<Longrightarrow> sendable s \<Longrightarrow>
     \<exists>ph pre suf. translate_preserving_ws s bt =
        (ph, bt\<lparr>pending := pending bt @ [(ph, pre, strip s, suf, s)], cache := (cache bt)(s \<mapsto> ph)\<rparr>)"
  by (auto simp: translate_preserving_ws_def sendable_def has_marker_def Let_def)

lemma tpw_has_tr: "has_tr (snd (translate_preserving_ws s bt)) = has_tr bt"
  by (auto simp: translate_preserving_ws_def Let_def split: option.splits)

lemma tpw_pending:
  "map pending_original (pending (snd (translate_preserving_ws s bt))) =
     map pending_original (pending bt) @ (if sendable s \<and> s \<notin> dom (cache bt) then [s] else [])"
proof (cases "cache bt s")
  case None
  show ?thesis
  proof (cases "sendable s")
    case True
    then show ?thesis using tpw_queue [OF None True] None by (auto simp: dom_def)
  next
    case False
    then show ?thesis using tpw_skip [OF None False] by simp
  qed
next
  case (Some r)
  then show ?thesis using tpw_cached [OF Some] by (auto simp: dom_def)
qed

lemma tpw_dom: "dom (cache (snd (translate_preserving_ws s bt))) = insert s (dom (cache bt))"
proof (cases "cache bt s")
  case None
  show ?thesis
  proof (cases "sendable s")
    case True
    then show ?thesis using tpw_queue [OF None True] by auto
  next
    case False
    then show ?thesis using tpw_skip [OF None False] by auto
  qed
next
  case (Some r)
  then show ?thesis using tpw_cached [OF Some] by (auto simp: dom_def)
qed

lemma tpw_cores:
  "\<forall>p \<in> set (pending bt). pending_core p = strip (pending_original p) \<Longrightarrow>
   \<forall>p \<in> set (pending (snd (translate_preserving_ws s bt))). pending_core p = strip (pending_original p)"
proof (cases "cache bt s")
  case None
  assume a: "\<forall>p \<in> set (pending bt). pending_core p = strip (pending_original p)"
  show ?thesis
  proof (cases "sendable s")
    case True
    then show ?thesis using tpw_queue [OF None True] a by auto
  next
    case False
    then show ?thesis using tpw_skip [OF None False] a by simp
  qed
next
  case (Some r)
  assume a: "\<forall>p \<in> set (pending bt). pending_core p = strip (pending_original p)"
  then show ?thesis using tpw_cached [OF Some] by simp
qed

lemma dedup_insert_notin: "s \<notin> set xs \<Longrightarrow> dedup (insert s seen) xs = dedup seen xs"
proof (induction xs arbitrary: seen)
  case Nil
  then show ?case by simp
next
  case (Cons x xs)
  then show ?case by (auto simp: insert_commute)
qed

lemma feed_pending:
  "map pending_original (pending (feed ss bt)) =
     map pending_original (pending bt) @ dedup (dom (cache bt)) (filter sendable ss)"
proof (induction ss arbitrary: bt)
  case Nil
  then show ?case by (simp add: feed_def)
next
  case (Cons s ss)
  have "feed (s # ss) bt = feed ss (snd (translate_preserving_ws s bt))" by (simp add: feed_def)
  moreover have "dedup (insert s (dom (cache bt))) (filter sendable ss) =
      dedup (insert s (dom (cache bt))) (filter sendable ss)" by simp
  ultimately show ?case using Cons.IH [of "snd (translate_preserving_ws s bt)"]
    by (auto simp: tpw_pending tpw_dom insert_absorb dedup_insert_notin)
qed

lemma feed_cores:
  "\<forall>p \<in> set (pending bt). pending_core p = strip (pending_original p) \<Longrightarrow>
   \<forall>p \<in> set (pending (feed ss bt)). pending_core p = strip (pending_original p)"
proof (induction ss arbitrary: bt)
  case Nil
  then show ?case by (simp add: feed_def)
next
  case (Cons s ss)
  have "feed (s # ss) bt = feed ss (snd (translate_preserving_ws s bt))" by (simp add: feed_def)
  then show ?case using Cons.IH [OF tpw_cores [OF Cons.prems]] by simp
qed

lemma feed_has_tr: "has_tr (feed ss bt) = has_tr bt"
  by (induction ss arbitrary: bt) (simp_all add: feed_def tpw_has_tr)

lemma sub_parts_repl_inner:
  "snd (sub_parts repl_inner ps bt) =
     feed (filter (\<lambda>s. s \<noteq> [] \<and> has_latin s) (map snd (hits ps))) bt"
proof (induction ps arbitrary: bt)
  case Nil
  then show ?case by (simp add: feed_def)
next
  case (Cons p ps)
  show ?case
  proof (cases p)
    case (Chr c)
    then show ?thesis using Cons.IH [of bt] by (simp add: split_def)
  next
    case (Hit t g)
    then show ?thesis using Cons.IH
      by (auto simp: split_def repl_inner_def feed_def)
  qed
qed

lemma single_inputs_append: "single_inputs (xs @ ys) = single_inputs xs @ single_inputs ys"
  by (induction xs rule: single_inputs.induct) auto

lemma translate_each_inputs:
  "translate_each B xs \<sigma> = (ts, log, \<sigma>') \<Longrightarrow> batch_inputs log = [] \<and> single_inputs log = xs"
  by (induction xs arbitrary: \<sigma> ts log \<sigma>') (auto split: prod.splits)

lemma translate_chunk_inputs:
  "translate_chunk B chunk \<sigma> = (ts, log, \<sigma>') \<Longrightarrow>
     batch_inputs log = chunk \<and> set (single_inputs log) \<subseteq> set chunk"
  by (auto simp: translate_chunk_def split: prod.splits option.splits dest: translate_each_inputs)

lemma translate_list_inputs:
  "translate_list B bt items \<sigma> = (ts, log, \<sigma>') \<Longrightarrow>
     batch_inputs log = (if has_tr bt then items else []) \<and> set (single_inputs log) \<subseteq> set items"
  by (auto simp: translate_list_def split: if_splits dest: translate_chunk_inputs)

lemma translate_all_inputs:
  "translate_all B bt cs \<sigma> = (ts, log, \<sigma>') \<Longrightarrow>
     batch_inputs log = (if has_tr bt then concat cs else []) \<and>
     set (single_inputs log) \<subseteq> set (concat cs)"
proof (induction cs arbitrary: \<sigma> ts log \<sigma>')
  case Nil
  then show ?case by simp
next
  case (Cons c cs)
  obtain t1 l1 s1 where a: "translate_list B bt c \<sigma> = (t1, l1, s1)"
    by (cases "translate_list B bt c \<sigma>") auto
  obtain t2 l2 s2 where b: "translate_all B bt cs s1 = (t2, l2, s2)"
    by (cases "translate_all B bt cs s1") auto
  have "log = l1 @ l2" using Cons.prems by (simp add: a b)
  then show ?case using translate_list_inputs [OF a] Cons.IH [OF b]
    by (auto simp: batch_inputs_append single_inputs_append)
qed

lemma process_batches_inputs:
  "process_batches B content bt \<sigma> = ((content', bt'), log, \<sigma>') \<Longrightarrow>
     batch_inputs log = (if has_tr bt then map pending_core (pending bt) else []) \<and>
     set (single_inputs log) \<subseteq> set (map pending_core (pending bt)) \<and>
     pending bt' = [] \<and> has_tr bt' = has_tr bt"
proof (cases "pending bt = []")
  case True
  assume "process_batches B content bt \<sigma> = ((content', bt'), log, \<sigma>')"
  then show ?thesis using True by (auto simp: process_batches_def)
next
  case False
  assume p: "process_batches B content bt \<sigma> = ((content', bt'), log, \<sigma>')"
  have cores: "(map (\<lambda>(placeholder, prefix, stripped, suffix, original). stripped) (pending bt)) =
      map pending_core (pending bt)" by (rule map_cong) auto
  obtain ts l s1 where a: "translate_all B bt (chunks chunk_size (map pending_core (pending bt))) \<sigma> = (ts, l, s1)"
    by (cases "translate_all B bt (chunks chunk_size (map pending_core (pending bt))) \<sigma>") auto
  have "log = l" "pending bt' = []" "has_tr bt' = has_tr bt"
    using p False by (auto simp: process_batches_def Let_def cores a split: prod.splits)
  then show ?thesis using translate_all_inputs [OF a]
    by (simp add: concat_chunks chunk_size_def)
qed







subsection \<open>Scanning lemmas\<close>

lemma re_parts_skip: "re_parts m (length xs) (xs @ ys) = re_parts m 0 ys"
  by (induction xs) simp_all

lemma re_parts_nomatch:
  "(\<And>i. i < length P \<Longrightarrow> m (drop i P @ X) = None) \<Longrightarrow>
     re_parts m 0 (P @ X) = map Chr P @ re_parts m 0 X"
proof (induction P)
  case Nil
  then show ?case by simp
next
  case (Cons c P)
  have "m ((c # P) @ X) = None" using Cons.prems [of 0] by simp
  moreover have "re_parts m 0 (P @ X) = map Chr P @ re_parts m 0 X"
  proof (rule Cons.IH)
    fix i assume "i < length P"
    then show "m (drop i P @ X) = None" using Cons.prems [of "Suc i"] by simp
  qed
  ultimately show ?case by simp
qed

lemma re_parts_hit:
  "m (X0 @ rest) = Some (length X0, g) \<Longrightarrow> X0 \<noteq> [] \<Longrightarrow>
     re_parts m 0 (X0 @ rest) = Hit X0 g # re_parts m 0 rest"
proof -
  assume a: "m (X0 @ rest) = Some (length X0, g)" and n: "X0 \<noteq> []"
  obtain c cs where x: "X0 = c # cs" using n by (cases X0) auto
  have "re_parts m (length cs) (cs @ rest) = re_parts m 0 rest" by (rule re_parts_skip)
  then show ?thesis using a by (simp add: x)
qed


lemma sub_parts_Chr:
  "sub_parts f (map Chr P @ ps) st = (P @ fst (sub_parts f ps st), snd (sub_parts f ps st))"
  by (induction P) (simp_all add: split_def)

lemma re_sub_st_at:
  assumes "\<And>i. i < length P \<Longrightarrow> m (drop i P @ X0 @ rest) = None"
    and "m (X0 @ rest) = Some (length X0, g)" and "X0 \<noteq> []"
  shows "re_sub_st m f (P @ X0 @ rest) st =
     (P @ fst (f X0 g st) @ fst (re_sub_st m f rest (snd (f X0 g st))),
      snd (re_sub_st m f rest (snd (f X0 g st))))"
  using re_parts_nomatch [of P m "X0 @ rest"] assms re_parts_hit [of m X0 rest g]
  by (simp add: re_sub_st_def sub_parts_Chr split_def)

lemma re_sub_at:
  assumes "\<And>i. i < length P \<Longrightarrow> m (drop i P @ X0 @ rest) = None"
    and "m (X0 @ rest) = Some (length X0, g)" and "X0 \<noteq> []"
  shows "re_sub m f (P @ X0 @ rest) = P @ f X0 g @ re_sub m f rest"
  using re_sub_st_at [OF assms, of "\<lambda>t g st. (f t g, st)" "()"]
  by (simp add: re_sub_def)

subsection \<open>Attribute patterns\<close>





lemma takeWhile_upto: "\<forall>c \<in> set xs. P c \<Longrightarrow> \<not> P y \<Longrightarrow> takeWhile P (xs @ y # ys) = xs"
  by (induction xs) simp_all




subsection \<open>Protecting and restoring blocks\<close>

subsection \<open>Prefixes and occurrences\<close>

lemma starts_with_iff: "starts_with p s \<longleftrightarrow> (\<exists>r. s = p @ r)"
proof
  assume "starts_with p s"
  then have "s = p @ drop (length p) s" by (metis append_take_drop_id starts_with_def)
  then show "\<exists>r. s = p @ r" ..
next
  assume "\<exists>r. s = p @ r"
  then show "starts_with p s" by (auto simp: starts_with_def)
qed

lemma starts_with_append:
  "starts_with (a @ b) s \<longleftrightarrow> starts_with a s \<and> starts_with b (drop (length a) s)"
  by (auto simp: starts_with_iff)

lemma starts_with_same: "starts_with a (a @ s)"
  by (simp add: starts_with_def)

lemma starts_with_short: "length p \<le> length x \<Longrightarrow> starts_with p (x @ y) = starts_with p x"
  by (simp add: starts_with_def)

lemma contains_iff: "contains n s \<longleftrightarrow> (\<exists>i \<le> length s. starts_with n (drop i s))"
proof (induction s)
  case Nil
  then show ?case by (auto simp: starts_with_def)
next
  case (Cons c cs)
  show ?case
  proof
    assume "contains n (c # cs)"
    then consider "starts_with n (c # cs)" | "contains n cs" by auto
    then show "\<exists>i \<le> length (c # cs). starts_with n (drop i (c # cs))"
    proof cases
      case 1
      then show ?thesis by (intro exI [of _ 0]) simp
    next
      case 2
      then obtain i where "i \<le> length cs" "starts_with n (drop i cs)" using Cons.IH by blast
      then show ?thesis by (intro exI [of _ "Suc i"]) simp
    qed
  next
    assume "\<exists>i \<le> length (c # cs). starts_with n (drop i (c # cs))"
    then obtain i where i: "i \<le> length (c # cs)" "starts_with n (drop i (c # cs))" by blast
    show "contains n (c # cs)"
    proof (cases i)
      case 0
      then show ?thesis using i by simp
    next
      case (Suc j)
      then have "contains n cs" using i Cons.IH by auto
      then show ?thesis by simp
    qed
  qed
qed

lemma contains_appendI1: "contains n a \<Longrightarrow> contains n (a @ b)"
proof -
  assume "contains n a"
  then obtain i where i: "i \<le> length a" "starts_with n (drop i a)" using contains_iff by blast
  then obtain r where "drop i a = n @ r" using starts_with_iff by blast
  then have "drop i (a @ b) = n @ (r @ b)" using i(1) by simp
  then have "starts_with n (drop i (a @ b))" using starts_with_iff by blast
  moreover have "i \<le> length (a @ b)" using i(1) by simp
  ultimately show ?thesis using contains_iff by blast
qed

lemma contains_appendI2: "contains n b \<Longrightarrow> contains n (a @ b)"
proof -
  assume "contains n b"
  then obtain i where i: "i \<le> length b" "starts_with n (drop i b)" using contains_iff by blast
  then have "starts_with n (drop (length a + i) (a @ b))" by simp
  moreover have "length a + i \<le> length (a @ b)" using i(1) by simp
  ultimately show ?thesis using contains_iff by blast
qed

lemma starts_with_contains: "starts_with n (drop i s) \<Longrightarrow> n \<noteq> [] \<Longrightarrow> contains n s"
proof -
  assume a: "starts_with n (drop i s)" and n: "n \<noteq> []"
  have "i \<le> length s"
  proof (rule ccontr)
    assume "\<not> i \<le> length s"
    then have "drop i s = []" by simp
    then show False using a n by (simp add: starts_with_def)
  qed
  then show ?thesis using a contains_iff by blast
qed

subsection \<open>Scanning for a literal\<close>

lemma skips_Nil: "skips key [] X"
  by (simp add: skips_def)

lemma skips_append: "skips key A (B @ X) \<Longrightarrow> skips key B X \<Longrightarrow> skips key (A @ B) X"
proof -
  assume a: "skips key A (B @ X)" and b: "skips key B X"
  show ?thesis unfolding skips_def
  proof (intro allI impI)
    fix i assume "i < length (A @ B)"
    show "\<not> starts_with key (drop i (A @ B) @ X)"
    proof (cases "i < length A")
      case True
      then show ?thesis using a by (simp add: skips_def)
    next
      case False
      then have "i - length A < length B" using \<open>i < length (A @ B)\<close> by simp
      then show ?thesis using b False by (simp add: skips_def)
    qed
  qed
qed

lemma skips_single: "\<not> starts_with key (c # X) \<Longrightarrow> skips key [c] X"
  by (simp add: skips_def)

lemma skips_first: "key = k # ks \<Longrightarrow> \<forall>c \<in> set M. c \<noteq> k \<Longrightarrow> skips key M X"
proof -
  assume key: "key = k # ks" and m: "\<forall>c \<in> set M. c \<noteq> k"
  show ?thesis unfolding skips_def
  proof (intro allI impI)
    fix i assume i: "i < length M"
    then obtain d ds where d: "drop i M = d # ds" by (cases "drop i M") auto
    have "d \<in> set (drop i M)" by (simp add: d)
    then have "d \<in> set M" by (rule in_set_dropD)
    then show "\<not> starts_with key (drop i M @ X)" using m by (simp add: d key starts_with_def)
  qed
qed

lemma str_replace_skip:
  "key \<noteq> [] \<Longrightarrow> skips key P X \<Longrightarrow> str_replace key b (P @ X) = P @ str_replace key b X"
proof -
  assume k: "key \<noteq> []" and s: "skips key P X"
  have "re_parts (m_literal key) 0 (P @ X) = map Chr P @ re_parts (m_literal key) 0 X"
    by (rule re_parts_nomatch) (use s in \<open>simp add: skips_def m_literal_def\<close>)
  then show ?thesis using k by (simp add: str_replace_def re_sub_def re_sub_st_def sub_parts_Chr)
qed

lemma str_replace_Nil: "key \<noteq> [] \<Longrightarrow> str_replace key b [] = []"
  by (simp add: str_replace_def re_sub_def re_sub_st_def)

lemma str_replace_none: "key \<noteq> [] \<Longrightarrow> skips key S [] \<Longrightarrow> str_replace key b S = S"
  using str_replace_skip [of key S "[]" b] by (simp add: str_replace_Nil)

lemma str_replace_here:
  "key \<noteq> [] \<Longrightarrow> str_replace key b (key @ X) = b @ str_replace key b X"
proof -
  assume k: "key \<noteq> []"
  have "m_literal key (key @ X) = Some (length key, ())" by (simp add: m_literal_def starts_with_def)
  from re_sub_at [of "[]" "m_literal key" key X "()" "\<lambda>t g. b", simplified, OF this k]
  show ?thesis using k by (simp add: str_replace_def)
qed

subsection \<open>Decimal digits\<close>

lemma digits_val_str_nat: "digits_val (str_nat n) = n"
proof (induction n rule: str_nat.induct)
  case (1 n)
  show ?case
  proof (cases "n < 10")
    case True
    then show ?thesis by (subst str_nat.simps) (simp add: digits_val_def)
  next
    case False
    then have "digits_val (str_nat (n div 10)) = n div 10" using 1 by simp
    then show ?thesis using False by (subst str_nat.simps) (simp add: digits_val_def)
  qed
qed

lemma str_nat_inj: "str_nat a = str_nat b \<Longrightarrow> a = b"
  by (metis digits_val_str_nat)

lemma str_nat_digits: "c \<in> set (str_nat n) \<Longrightarrow> 48 \<le> c \<and> c \<le> 57"
proof (induction n rule: str_nat.induct)
  case (1 n)
  show ?case
  proof (cases "n < 10")
    case True
    then show ?thesis using 1(2) by (subst (asm) str_nat.simps) auto
  next
    case False
    then have "c \<in> set (str_nat (n div 10)) \<or> c = 48 + n mod 10"
      using 1(2) by (subst (asm) str_nat.simps) auto
    then show ?thesis using 1(1) False by auto
  qed
qed

lemma str_nat_not_Nil: "str_nat n \<noteq> []"
  by (subst str_nat.simps) simp

subsection \<open>Tokens between runs of text\<close>

lemma no_word_at_guard:
  assumes "\<not> contains W Q" "g \<notin> set W" "W \<noteq> []"
  shows "\<not> starts_with W (drop i Q @ g # R)"
proof
  assume a: "starts_with W (drop i Q @ g # R)"
  show False
  proof (cases "length W \<le> length (drop i Q)")
    case True
    then have "starts_with W (drop i Q)" using a by (simp add: starts_with_short)
    then show False using assms(1,3) starts_with_contains by blast
  next
    case False
    then have l: "length (drop i Q) < length W" by simp
    obtain r where r: "drop i Q @ g # R = W @ r" using a starts_with_iff by blast
    have "W ! length (drop i Q) = (W @ r) ! length (drop i Q)" using l by (simp add: nth_append)
    also have "\<dots> = g" unfolding r [symmetric] by (rule nth_append_length)
    finally show False using assms(2) l nth_mem by metis
  qed
qed

lemma no_key_in_run:
  assumes "\<not> contains W Q" "g \<notin> set W" "W \<noteq> []" "i < length Q"
  shows "\<not> starts_with (g # g # W @ X) (drop i Q @ g # g # R)"
proof
  assume a: "starts_with (g # g # W @ X) (drop i Q @ g # g # R)"
  obtain d D where d: "drop i Q = d # D" using assms(4) by (cases "drop i Q") auto
  have D: "D = drop (Suc i) Q" using d by (metis drop_Suc list.sel(3) tl_drop)
  have 1: "starts_with (g # W @ X) (D @ g # g # R)" using a by (simp add: d starts_with_Cons split: if_splits)
  obtain w ws where w: "W = w # ws" using assms(3) by (cases W) auto
  show False
  proof (cases D)
    case Nil
    then have "starts_with (W @ X) (g # R)" using 1 by (simp add: starts_with_Cons split: if_splits)
    then have "w = g" by (simp add: w starts_with_Cons split: if_splits)
    then show False using assms(2) w by simp
  next
    case (Cons d2 D2)
    have D2: "D2 = drop (Suc (Suc i)) Q" using Cons D by (metis drop_Suc list.sel(3) tl_drop)
    have "starts_with (W @ X) (D2 @ g # g # R)" using 1 Cons by (simp add: starts_with_Cons split: if_splits)
    then have "starts_with W (D2 @ g # g # R)" by (simp add: starts_with_append)
    then show False using no_word_at_guard [OF assms(1-3), of "Suc (Suc i)" "g # R"] D2 by simp
  qed
qed

lemma skips_run_before_token:
  assumes "\<not> contains W Q" "g \<notin> set W" "W \<noteq> []"
  shows "skips (g # g # W @ X) Q (g # g # R)"
  unfolding skips_def using no_key_in_run [OF assms] by blast

lemma same_digits:
  assumes "starts_with (ds @ [g, g]) (ds' @ g # g # R)" "g \<notin> set ds" "g \<notin> set ds'"
  shows "ds = ds'"
proof -
  obtain r where r: "ds' @ g # g # R = ds @ g # g # r" using assms(1) starts_with_iff by fastforce
  have "takeWhile (\<lambda>c. c \<noteq> g) (ds' @ g # g # R) = ds'" using assms(3) by (intro takeWhile_upto) auto
  moreover have "takeWhile (\<lambda>c. c \<noteq> g) (ds @ g # g # r) = ds" using assms(2) by (intro takeWhile_upto) auto
  ultimately show ?thesis using r by simp
qed

text \<open>a token \<open>g g W ds g g\<close> with other digits is stepped over\<close>

lemma skips_other_token:
  assumes g: "g \<notin> set W" "W \<noteq> []" "g \<notin> set ds" "g \<notin> set ds'" "ds' \<noteq> ds"
    and R: "\<not> starts_with W R" "\<not> starts_with (g # W) R"
  shows "skips (g # g # W @ ds @ [g, g]) (g # g # W @ ds' @ [g, g]) R"
proof -
  let ?key = "g # g # W @ ds @ [g, g]"
  obtain w ws where w: "W = w # ws" using g(2) by (cases W) auto
  have wg: "w \<noteq> g" using g(1) w by auto
  have 0: "skips ?key [g] ([g] @ (W @ ds') @ [g] @ [g] @ R)"
  proof (rule skips_single)
    show "\<not> starts_with ?key (g # [g] @ (W @ ds') @ [g] @ [g] @ R)"
    proof
      assume "starts_with ?key (g # [g] @ (W @ ds') @ [g] @ [g] @ R)"
      then have "starts_with (W @ ds @ [g, g]) (W @ ds' @ g # g # R)"
        by (simp add: starts_with_Cons split: if_splits)
      then have "starts_with (ds @ [g, g]) (ds' @ g # g # R)" by (simp add: starts_with_append)
      then show False using same_digits g(3,4,5) by blast
    qed
  qed
  have 1: "skips ?key [g] ((W @ ds') @ [g] @ [g] @ R)"
    by (rule skips_single) (use wg in \<open>auto simp: w starts_with_Cons\<close>)
  have 2: "skips ?key (W @ ds') ([g] @ [g] @ R)"
    by (rule skips_first [of _ g]) (use g in auto)
  have 3: "skips ?key [g] ([g] @ R)"
  proof (rule skips_single)
    show "\<not> starts_with ?key (g # [g] @ R)"
      using R(1) by (simp add: starts_with_Cons starts_with_append)
  qed
  have 4: "skips ?key [g] R"
  proof (rule skips_single)
    show "\<not> starts_with ?key (g # R)"
    proof
      assume "starts_with ?key (g # R)"
      then have "starts_with ((g # W) @ ds @ [g, g]) R" by (simp add: starts_with_Cons split: if_splits)
      then show False using R(2) starts_with_append by blast
    qed
  qed
  have a: "skips ?key ([g] @ [g]) R" using skips_append [OF 3 4] .
  have "skips ?key (W @ ds') (([g] @ [g]) @ R)" using 2 by simp
  then have b: "skips ?key ((W @ ds') @ [g] @ [g]) R" using skips_append a by blast
  have "skips ?key [g] (((W @ ds') @ [g] @ [g]) @ R)" using 1 by simp
  then have c: "skips ?key ([g] @ (W @ ds') @ [g] @ [g]) R" using skips_append b by blast
  have "skips ?key [g] (([g] @ (W @ ds') @ [g] @ [g]) @ R)" using 0 by simp
  then have "skips ?key ([g] @ [g] @ (W @ ds') @ [g] @ [g]) R" using skips_append c by blast
  then show ?thesis by simp
qed

lemma block_token_shape: "block_token tag k = 64 # 64 # word_of tag @ str_nat k @ [64, 64]"
  by (simp add: block_token_def word_of_def)

lemma block_token_not_Nil: "block_token tag k \<noteq> []"
  by (simp add: block_token_shape)

lemma word_of_facts: "64 \<notin> set (upper tag) \<Longrightarrow> 64 \<notin> set (word_of tag) \<and> word_of tag \<noteq> []"
  by (simp add: word_of_def)

lemma str_nat_no_at: "64 \<notin> set (str_nat n)"
  using str_nat_digits [of 64 n] by auto

subsection \<open>Protection as rendering\<close>

lemma protect_render:
  "sub_parts (\<lambda>t g saved. (block_token tag (length saved), saved @ [t])) ps saved0 =
     (render tag (length saved0) ps, saved0 @ map fst (hits ps))"
proof (induction ps arbitrary: saved0)
  case Nil
  then show ?case by simp
next
  case (Cons p ps)
  show ?case
  proof (cases p)
    case (Chr c)
    then show ?thesis using Cons.IH [of saved0] by simp
  next
    case (Hit t g)
    then show ?thesis using Cons.IH [of "saved0 @ [t]"] by simp
  qed
qed

lemma flatten_re_parts:
  assumes "\<And>s n g. m s = Some (n, g) \<Longrightarrow> 0 < n"
  shows "flatten (re_parts m k s) = drop k s"
proof (induction s arbitrary: k)
  case Nil
  then show ?case by (simp add: flatten_def)
next
  case (Cons c cs)
  show ?case
  proof (cases k)
    case (Suc j)
    then show ?thesis using Cons.IH [of j] by (simp add: flatten_def)
  next
    case 0
    show ?thesis
    proof (cases "m (c # cs)")
      case None
      then show ?thesis using 0 Cons.IH [of 0] by (simp add: flatten_def)
    next
      case (Some r)
      obtain n g where r: "r = (n, g)" by (cases r) auto
      have n: "0 < n" using assms Some r by blast
      then obtain n' where n': "n = Suc n'" by (cases n) auto
      have "flatten (re_parts m n' cs) = drop n' cs" using Cons.IH [of n'] .
      then show ?thesis using 0 Some r n' by (simp add: flatten_def)
    qed
  qed
qed

lemma m_block_positive: "m_block tag s = Some (n, g) \<Longrightarrow> 0 < n"
  by (auto simp: m_block_def Let_def split: if_splits option.splits)

lemma protect_blocks_eq:
  "protect_blocks content tag =
     (render tag 0 (re_parts (m_block tag) 0 content), map fst (hits (re_parts (m_block tag) 0 content)))"
  using protect_render [of tag "re_parts (m_block tag) 0 content" "[]"]
  by (simp add: protect_blocks_def re_sub_st_def)

lemma flatten_m_block: "flatten (re_parts (m_block tag) 0 content) = content"
  using flatten_re_parts [of "m_block tag" 0 content] m_block_positive by simp

subsection \<open>Runs without the word\<close>

lemma flatten_Cons: "flatten (p # ps) = text_of p @ flatten ps"
  by (simp add: flatten_def)

lemma runs_from_text: "\<not> contains W (Q @ flatten ps) \<Longrightarrow> wfree_runs W Q ps"
proof (induction ps arbitrary: Q)
  case Nil
  then show ?case by (simp add: flatten_def)
next
  case (Cons p ps)
  show ?case
  proof (cases p)
    case (Chr c)
    then show ?thesis using Cons.IH [of "Q @ [c]"] Cons.prems by (simp add: flatten_Cons)
  next
    case (Hit t g)
    have 1: "\<not> contains W Q" using Cons.prems contains_appendI1 by blast
    have "contains W (flatten ps) \<Longrightarrow> contains W (Q @ t @ flatten ps)"
      using contains_appendI2 [of W "flatten ps" "Q @ t"] by simp
    then have "\<not> contains W (flatten ps)"
      using Cons.prems by (auto simp: Hit flatten_Cons)
    then have "wfree_runs W [] ps" using Cons.IH [of "[]"] by simp
    then show ?thesis using 1 Hit by simp
  qed
qed

lemma no_word_in_run:
  assumes "64 \<notin> set W" "W \<noteq> []"
  shows "wfree_runs W Q ps \<Longrightarrow> i \<le> length Q \<Longrightarrow> \<not> starts_with W (drop i Q @ render tag k ps)"
proof (induction ps arbitrary: Q k)
  case Nil
  then show ?case using starts_with_contains [of W i Q] assms(2) by auto
next
  case (Cons p ps)
  show ?case
  proof (cases p)
    case (Chr c)
    have "drop i Q @ render tag k (p # ps) = drop i (Q @ [c]) @ render tag k ps"
      using Cons.prems(2) by (simp add: Chr)
    then show ?thesis using Cons.IH [of "Q @ [c]" k] Cons.prems by (simp add: Chr)
  next
    case (Hit t g)
    have "\<not> contains W Q" using Cons.prems(1) Hit by simp
    then show ?thesis
      using no_word_at_guard [of W Q 64 i "64 # word_of tag @ str_nat k @ [64, 64] @ render tag (Suc k) ps"] assms
      by (simp add: Hit block_token_shape)
  qed
qed

lemma no_guard_word:
  assumes "64 \<notin> set W" "W \<noteq> []"
  shows "wfree_runs W [] ps \<Longrightarrow> \<not> starts_with (64 # W) (render tag k ps)"
proof (cases ps)
  case Nil
  then show ?thesis by (simp add: starts_with_def)
next
  case (Cons p ps')
  assume a: "wfree_runs W [] ps"
  show ?thesis
  proof (cases p)
    case (Chr c)
    have "wfree_runs W [c] ps'" using a Cons Chr by simp
    then have "\<not> starts_with W (drop 1 [c] @ render tag k ps')"
      by (intro no_word_in_run [OF assms]) simp_all
    then show ?thesis by (simp add: Cons Chr starts_with_Cons)
  next
    case (Hit t g)
    obtain w ws where w: "W = w # ws" using assms(2) by (cases W) auto
    have "w \<noteq> 64" using assms(1) w by auto
    then show ?thesis by (auto simp: Cons Hit block_token_shape starts_with_Cons w)
  qed
qed

subsection \<open>Replacing one token\<close>

lemma token_absent:
  assumes "64 \<notin> set (upper tag)"
  shows "wfree_runs (word_of tag) Q ps \<Longrightarrow> k < j \<Longrightarrow> skips (block_token tag k) (Q @ render tag j ps) []"
proof (induction ps arbitrary: Q j)
  case Nil
  have "skips (block_token tag k) Q []"
    unfolding skips_def
  proof (intro allI impI)
    fix i assume "i < length Q"
    show "\<not> starts_with (block_token tag k) (drop i Q @ [])"
    proof
      assume "starts_with (block_token tag k) (drop i Q @ [])"
      then have "starts_with ([64, 64] @ word_of tag @ str_nat k @ [64, 64]) (drop i Q)"
        by (simp add: block_token_shape)
      then have "starts_with (word_of tag @ str_nat k @ [64, 64]) (drop (length [64, 64::nat]) (drop i Q))"
        using starts_with_append by blast
      then have "starts_with (word_of tag) (drop (length [64, 64::nat]) (drop i Q))"
        using starts_with_append by blast
      then have "starts_with (word_of tag) (drop (i + 2) Q)"
        by (simp add: add.commute)
      then show False using Nil.prems(1) starts_with_contains word_of_facts [OF assms] by auto
    qed
  qed
  then show ?case by simp
next
  case (Cons p ps)
  show ?case
  proof (cases p)
    case (Chr c)
    then show ?thesis using Cons.IH [of "Q @ [c]" j] Cons.prems by simp
  next
    case (Hit t g)
    let ?R = "render tag (Suc j) ps"
    have q: "\<not> contains (word_of tag) Q" and r: "wfree_runs (word_of tag) [] ps"
      using Cons.prems(1) Hit by simp_all
    have w: "64 \<notin> set (word_of tag)" "word_of tag \<noteq> []" using word_of_facts [OF assms] by simp_all
    have 1: "skips (block_token tag k) Q (block_token tag j @ ?R)"
      using skips_run_before_token [OF q w, of "str_nat k @ [64, 64]" "word_of tag @ str_nat j @ [64, 64] @ ?R"]
      by (simp add: block_token_shape)
    have nw1: "\<not> starts_with (word_of tag) ?R"
      using no_word_in_run [OF w r, of 0 tag "Suc j"] by simp
    have nw2: "\<not> starts_with (64 # word_of tag) ?R" using no_guard_word [OF w r] .
    have "str_nat j \<noteq> str_nat k" using Cons.prems(2) str_nat_inj by blast
    then have 2: "skips (block_token tag k) (block_token tag j) ?R"
      using skips_other_token [of 64 "word_of tag" "str_nat k" "str_nat j" ?R] w str_nat_no_at nw1 nw2
      by (simp add: block_token_shape)
    have 3: "skips (block_token tag k) ?R []" using Cons.IH [of "[]" "Suc j"] r Cons.prems(2) by simp
    have "skips (block_token tag k) (block_token tag j @ ?R) []" using skips_append [of _ _ ?R "[]"] 2 3 by simp
    then have "skips (block_token tag k) (Q @ block_token tag j @ ?R) []"
      using skips_append [of _ Q "block_token tag j @ ?R" "[]"] 1 by simp
    then show ?thesis by (simp add: Hit)
  qed
qed

lemma replace_first_token:
  assumes "64 \<notin> set (upper tag)" "\<not> contains (word_of tag) Q" "wfree_runs (word_of tag) [] ps"
  shows "str_replace (block_token tag k) b (Q @ block_token tag k @ render tag (Suc k) ps) =
     Q @ b @ render tag (Suc k) ps"
proof -
  let ?R = "render tag (Suc k) ps"
  have w: "64 \<notin> set (word_of tag)" "word_of tag \<noteq> []" using word_of_facts [OF assms(1)] by simp_all
  have 1: "skips (block_token tag k) Q (block_token tag k @ ?R)"
    using skips_run_before_token [OF assms(2) w, of "str_nat k @ [64, 64]" "word_of tag @ str_nat k @ [64, 64] @ ?R"]
    by (simp add: block_token_shape)
  have 3: "skips (block_token tag k) ?R []" using token_absent [OF assms(1), of "[]" ps k "Suc k"] assms(3) by simp
  have "str_replace (block_token tag k) b (Q @ block_token tag k @ ?R) =
      Q @ str_replace (block_token tag k) b (block_token tag k @ ?R)"
    using str_replace_skip [OF block_token_not_Nil 1] .
  also have "\<dots> = Q @ b @ str_replace (block_token tag k) b ?R"
    using str_replace_here [OF block_token_not_Nil] by simp
  also have "\<dots> = Q @ b @ ?R" using str_replace_none [OF block_token_not_Nil 3] by simp
  finally show ?thesis .
qed

lemma restore_render:
  assumes "64 \<notin> set (upper tag)"
  shows "\<not> contains (word_of tag) (Q @ flatten ps) \<Longrightarrow>
     restore_from (Q @ render tag k ps) tag k (map fst (hits ps)) = Q @ flatten ps"
proof (induction ps arbitrary: Q k)
  case Nil
  then show ?case by (simp add: flatten_def)
next
  case (Cons p ps)
  show ?case
  proof (cases p)
    case (Chr c)
    then show ?thesis using Cons.IH [of "Q @ [c]" k] Cons.prems by (simp add: flatten_Cons)
  next
    case (Hit t g)
    have q: "\<not> contains (word_of tag) Q" using Cons.prems contains_appendI1 by blast
    have "contains (word_of tag) (flatten ps) \<Longrightarrow> contains (word_of tag) (Q @ t @ flatten ps)"
      using contains_appendI2 [of "word_of tag" "flatten ps" "Q @ t"] by simp
    then have "\<not> contains (word_of tag) (flatten ps)"
      using Cons.prems by (auto simp: Hit flatten_Cons)
    then have r: "wfree_runs (word_of tag) [] ps" using runs_from_text [of "word_of tag" "[]" ps] by simp
    have "restore_from (Q @ render tag k (p # ps)) tag k (map fst (hits (p # ps))) =
        restore_from ((Q @ t) @ render tag (Suc k) ps) tag (Suc k) (map fst (hits ps))"
      using replace_first_token [OF assms q r, of k t] by (simp add: Hit)
    also have "\<dots> = (Q @ t) @ flatten ps" using Cons.IH [of "Q @ t" "Suc k"] Cons.prems by (simp add: Hit flatten_Cons)
    finally show ?thesis by (simp add: Hit flatten_Cons)
  qed
qed

lemma restore_protect_one:
  assumes "64 \<notin> set (upper tag)" "\<not> contains (word_of tag) content"
  shows "restore_blocks (fst (protect_blocks content tag)) tag (snd (protect_blocks content tag)) = content"
  using restore_render [OF assms(1), of "[]" "re_parts (m_block tag) 0 content" 0] assms(2)
  by (simp add: protect_blocks_eq restore_blocks_def flatten_m_block)

lemma contains_append_split:
  "contains V (A @ B) \<Longrightarrow> (\<exists>i < length A. starts_with V (drop i A @ B)) \<or> contains V B"
proof -
  assume "contains V (A @ B)"
  then obtain i where i: "i \<le> length (A @ B)" "starts_with V (drop i (A @ B))"
    using contains_iff by blast
  show ?thesis
  proof (cases "i < length A")
    case True
    then show ?thesis using i(2) by auto
  next
    case False
    then have "starts_with V (drop (i - length A) B)" using i(2) by simp
    moreover have "i - length A \<le> length B" using i(1) by simp
    ultimately show ?thesis using contains_iff by blast
  qed
qed

lemma not_starts_with_guard: "g \<notin> set V \<Longrightarrow> V \<noteq> [] \<Longrightarrow> \<not> starts_with V (g # X)"
  by (cases V) (auto simp: starts_with_Cons)

lemma not_contains_guards:
  assumes "g \<notin> set V" "V \<noteq> []" "contains V ([g, g] @ X)"
  shows "contains V X"
proof -
  have "\<not> starts_with V (drop i [g, g] @ X)" if "i < length [g, g]" for i
  proof -
    from that have "i = 0 \<or> i = 1" by auto
    then show ?thesis using not_starts_with_guard [OF assms(1,2)] by auto
  qed
  then show ?thesis using contains_append_split [OF assms(3)] by blast
qed

lemma render_free:
  assumes "64 \<notin> set V" "V \<noteq> []" "\<And>k. \<not> contains V (word_of tag @ str_nat k)"
  shows "wfree_runs V Q ps \<Longrightarrow> \<not> contains V (Q @ render tag k ps)"
proof (induction ps arbitrary: Q k)
  case Nil
  then show ?case by simp
next
  case (Cons p ps)
  show ?case
  proof (cases p)
    case (Chr c)
    then show ?thesis using Cons.IH [of "Q @ [c]" k] Cons.prems by simp
  next
    case (Hit t g)
    let ?R = "render tag (Suc k) ps"
    let ?I = "word_of tag @ str_nat k"
    have q: "\<not> contains V Q" and r: "wfree_runs V [] ps" using Cons.prems Hit by simp_all
    have tok: "block_token tag k @ ?R = [64, 64] @ ?I @ [64, 64] @ ?R" by (simp add: block_token_shape)
    show ?thesis
    proof
      assume "contains V (Q @ render tag k (p # ps))"
      then have "contains V (Q @ [64, 64] @ ?I @ [64, 64] @ ?R)" by (simp add: Hit tok)
      then have c1: "contains V (Q @ [64, 64] @ ?I @ [64, 64] @ ?R)" .
      have n1: "\<not> starts_with V (drop i Q @ [64, 64] @ ?I @ [64, 64] @ ?R)" for i
        using no_word_at_guard [OF q assms(1,2), of i "64 # ?I @ [64, 64] @ ?R"] by simp
      have c2: "contains V ([64, 64] @ ?I @ [64, 64] @ ?R)"
        using contains_append_split [OF c1] n1 by blast
      have c3: "contains V (?I @ [64, 64] @ ?R)" using not_contains_guards [OF assms(1,2) c2] .
      have n2: "\<not> starts_with V (drop i ?I @ [64, 64] @ ?R)" for i
        using no_word_at_guard [where W = V and Q = ?I and g = 64 and R = "64 # ?R" and i = i] assms
        by simp
      have c4: "contains V ([64, 64] @ ?R)"
        using contains_append_split [OF c3] n2 by blast
      have "contains V ?R" using not_contains_guards [OF assms(1,2) c4] .
      then show False using Cons.IH [OF r, of "Suc k"] by simp
    qed
  qed
qed

lemma contains_set: "contains V s \<Longrightarrow> set V \<subseteq> set s"
proof -
  assume "contains V s"
  then obtain i where "starts_with V (drop i s)" using contains_iff by blast
  then obtain r where "drop i s = V @ r" using starts_with_iff by blast
  then have "set V \<subseteq> set (drop i s)" by simp
  then show ?thesis using set_drop_subset by fastforce
qed

lemma script_word_not_in_style_token: "\<not> contains (py ''SCRIPT_'') (word_of (py ''style'') @ str_nat k)"
proof
  assume "contains (py ''SCRIPT_'') (word_of (py ''style'') @ str_nat k)"
  then have "67 \<in> set (word_of (py ''style'') @ str_nat k)" using contains_set by fastforce
  then show False using str_nat_digits [of 67 k] by (auto simp: word_of_def upper_def)
qed

text \<open>
  Claim C4 as amended, for translate_html_ru.py: when the document contains neither
  \<open>STYLE_\<close> nor \<open>SCRIPT_\<close>, protecting the style blocks, then the script blocks, and
  restoring the script blocks, then the style blocks, gives back the document.
\<close>

theorem ru_restore_protect:
  "\<not> contains (py ''STYLE_'') doc \<and> \<not> contains (py ''SCRIPT_'') doc \<longrightarrow>
     (case protect_blocks doc (py ''style'') of (html2, styles) \<Rightarrow>
        (case protect_blocks html2 (py ''script'') of (html3, scripts) \<Rightarrow>
           restore_blocks (restore_blocks html3 (py ''script'') scripts) (py ''style'') styles)) = doc"
proof
  assume a: "\<not> contains (py ''STYLE_'') doc \<and> \<not> contains (py ''SCRIPT_'') doc"
  let ?ps = "re_parts (m_block (py ''style'')) 0 doc"
  let ?html2 = "fst (protect_blocks doc (py ''style''))"
  have w1: "word_of (py ''style'') = py ''STYLE_''" by (simp add: word_of_def upper_def)
  have w2: "word_of (py ''script'') = py ''SCRIPT_''" by (simp add: word_of_def upper_def)
  have u1: "64 \<notin> set (upper (py ''style''))" by (simp add: upper_def)
  have u2: "64 \<notin> set (upper (py ''script''))" by (simp add: upper_def)
  have "wfree_runs (py ''SCRIPT_'') [] ?ps"
    using runs_from_text [of "py ''SCRIPT_''" "[]" ?ps] a by (simp add: flatten_m_block)
  then have "\<not> contains (py ''SCRIPT_'') ([] @ render (py ''style'') 0 ?ps)"
    by (intro render_free script_word_not_in_style_token) simp_all
  then have c: "\<not> contains (word_of (py ''script'')) ?html2"
    by (simp add: protect_blocks_eq word_of_def upper_def)
  have 1: "restore_blocks (fst (protect_blocks ?html2 (py ''script''))) (py ''script'')
      (snd (protect_blocks ?html2 (py ''script''))) = ?html2"
    using restore_protect_one [OF u2 c] .
  have 2: "restore_blocks ?html2 (py ''style'') (snd (protect_blocks doc (py ''style''))) = doc"
    using restore_protect_one [OF u1, of doc] a by (simp add: word_of_def upper_def)
  show "(case protect_blocks doc (py ''style'') of (html2, styles) \<Rightarrow>
        (case protect_blocks html2 (py ''script'') of (html3, scripts) \<Rightarrow>
           restore_blocks (restore_blocks html3 (py ''script'') scripts) (py ''style'') styles)) = doc"
    using 1 2 by (simp add: split_def)
qed

text \<open>
  Claim C4 fails as stated: the tokens are plain text, and a document that already
  holds the text of a token gets a block substituted there too.
\<close>

theorem ru_token_text_in_document:
  "(case protect_blocks (py ''@@STYLE_0@@<style>a</style>'') (py ''style'') of (html2, styles) \<Rightarrow>
      (case protect_blocks html2 (py ''script'') of (html3, scripts) \<Rightarrow>
         restore_blocks (restore_blocks html3 (py ''script'') scripts) (py ''style'') styles)) =
   py ''<style>a</style><style>a</style>''"
  by (simp add: ev_re ev_ru)

theorem ru_restore_protect_witness:
  "\<not> contains (py ''STYLE_'') (py ''<style>a</style><script>b</script>'') \<and>
   \<not> contains (py ''SCRIPT_'') (py ''<style>a</style><script>b</script>'') \<and>
   (case protect_blocks (py ''<style>a</style><script>b</script>'') (py ''style'') of (html2, styles) \<Rightarrow>
      (case protect_blocks html2 (py ''script'') of (html3, scripts) \<Rightarrow>
         restore_blocks (restore_blocks html3 (py ''script'') scripts) (py ''style'') styles)) =
   py ''<style>a</style><script>b</script>''"
proof -
  have h: "\<not> contains (py ''STYLE_'') (py ''<style>a</style><script>b</script>'') \<and>
   \<not> contains (py ''SCRIPT_'') (py ''<style>a</style><script>b</script>'')"
    by (simp add: ev_re)
  show ?thesis using ru_restore_protect [of "py ''<style>a</style><script>b</script>''"] h by blast
qed

subsection \<open>The scan of a text in two parts\<close>

lemma scans_alone_Nil: "scans_alone m [] Y"
  by (simp add: scans_alone_def)














subsection \<open>Scans without a match\<close>








subsection \<open>The translator during a run\<close>



















subsection \<open>Writing the translations back\<close>






subsection \<open>The substitution of the text-node pass\<close>









subsection \<open>The attribute passes\<close>












subsection \<open>The strings a run passes to the translator\<close>

lemma feed_append: "feed (xs @ ys) bt = feed ys (feed xs bt)"
  by (simp add: feed_def)

lemma feed_dom: "dom (cache (feed ss bt)) = dom (cache bt) \<union> set ss"
proof (induction ss arbitrary: bt)
  case Nil
  then show ?case by (simp add: feed_def)
next
  case (Cons s ss)
  have "feed (s # ss) bt = feed ss (snd (translate_preserving_ws s bt))" by (simp add: feed_def)
  then show ?case using Cons.IH [of "snd (translate_preserving_ws s bt)"] by (simp add: tpw_dom)
qed

lemma sub_parts_repl_q:
  "snd (sub_parts (repl_q q) ps bt) = feed (latin_values (hits ps)) bt"
proof (induction ps arbitrary: bt)
  case Nil
  then show ?case by (simp add: feed_def latin_values_def)
next
  case (Cons p ps)
  show ?case
  proof (cases p)
    case (Chr c)
    then show ?thesis using Cons.IH [of bt] by (simp add: split_def)
  next
    case (Hit t g)
    obtain g1 v where g: "g = (g1, v)" by (cases g) auto
    show ?thesis using Cons.IH Hit g
      by (auto simp: split_def repl_q_def feed_def latin_values_def)
  qed
qed

lemma attr_scan_feed:
  "snd (attr_scan q attr content bt) = feed (latin_values (finditer (m_attr_q q attr) content)) bt"
  by (simp add: attr_scan_def re_sub_st_def finditer_def sub_parts_repl_q)

lemma attrs_loop_feed:
  "snd (translate_attrs_loop as content bt) = feed (attr_segments as content bt) bt"
proof (induction as arbitrary: content bt)
  case Nil
  then show ?case by (simp add: feed_def)
next
  case (Cons a as)
  obtain c1 b1 where 1: "attr_scan 34 a content bt = (c1, b1)" by (cases "attr_scan 34 a content bt") auto
  obtain c2 b2 where 2: "attr_scan 39 a c1 b1 = (c2, b2)" by (cases "attr_scan 39 a c1 b1") auto
  have b1: "b1 = feed (latin_values (finditer (m_attr_q 34 a) content)) bt"
    using attr_scan_feed [of 34 a content bt] 1 by simp
  have b2: "b2 = feed (latin_values (finditer (m_attr_q 39 a) c1)) b1"
    using attr_scan_feed [of 39 a c1 b1] 2 by simp
  have "snd (translate_attrs_loop (a # as) content bt) = snd (translate_attrs_loop as c2 b2)"
    using 1 2 by (simp add: attr_scan_def)
  also have "\<dots> = feed (attr_segments as c2 b2) b2" by (rule Cons.IH)
  finally show ?case using 1 2 b1 b2 by (simp add: feed_append)
qed

lemma text_scan_feed: "snd (text_scan content bt) = feed (text_segments content) bt"
  using sub_parts_repl_inner [of "re_parts m_text 0 content" bt]
  by (simp add: text_scan_def text_segments_def re_sub_st_def finditer_def)

lemma dedup_append: "dedup seen (xs @ ys) = dedup seen xs @ dedup (seen \<union> set xs) ys"
proof (induction xs arbitrary: seen)
  case Nil
  then show ?case by simp
next
  case (Cons x xs)
  show ?case
  proof (cases "x \<in> seen")
    case True
    then have "seen \<union> set (x # xs) = seen \<union> set xs" by auto
    then show ?thesis using True Cons.IH [of seen] by simp
  next
    case False
    have "seen \<union> set (x # xs) = insert x seen \<union> set xs" by auto
    then show ?thesis using False Cons.IH [of "insert x seen"] by simp
  qed
qed

lemma dedup_cong: "\<forall>x \<in> set xs. x \<in> S \<longleftrightarrow> x \<in> S' \<Longrightarrow> dedup S xs = dedup S' xs"
proof (induction xs arbitrary: S S')
  case Nil
  then show ?case by simp
next
  case (Cons x xs)
  have 1: "x \<in> S \<longleftrightarrow> x \<in> S'" using Cons.prems by simp
  have 2: "\<forall>y \<in> set xs. y \<in> S \<longleftrightarrow> y \<in> S'" using Cons.prems by simp
  have 3: "\<forall>y \<in> set xs. y \<in> insert x S \<longleftrightarrow> y \<in> insert x S'" using 2 by auto
  show ?case using 1 Cons.IH [OF 2] Cons.IH [OF 3] by simp
qed

lemma replace_pending_dom:
  "dom (snd (replace_pending z content c)) = dom c \<union> pending_original ` fst ` set z"
proof (induction z arbitrary: content c)
  case Nil
  then show ?case by simp
next
  case (Cons x z)
  obtain ph pre core suf orig t where x: "x = ((ph, pre, core, suf, orig), t)"
    by (cases x) (metis prod_cases5)
  have "dom (snd (replace_pending z (str_replace ph (pre @ t @ suf) content) (c(orig \<mapsto> pre @ t @ suf)))) =
      dom (c(orig \<mapsto> pre @ t @ suf)) \<union> pending_original ` fst ` set z"
    by (rule Cons.IH)
  then show ?case unfolding x by (simp add: Let_def)
qed

lemma process_batches_dom:
  assumes "pending_original ` set (pending bt) \<subseteq> dom (cache bt)"
  shows "dom (cache (snd (fst (process_batches B content bt \<sigma>)))) = dom (cache bt)"
proof (cases "pending bt = []")
  case True
  then show ?thesis by (simp add: process_batches_def)
next
  case False
  let ?cores = "map (\<lambda>(placeholder, prefix, stripped, suffix, original). stripped) (pending bt)"
  obtain ts l s1 where t: "translate_all B bt (chunks chunk_size ?cores) \<sigma> = (ts, l, s1)"
    by (cases "translate_all B bt (chunks chunk_size ?cores) \<sigma>") auto
  obtain c' k' where r: "replace_pending (zip (pending bt) ts) content (cache bt) = (c', k')"
    by (cases "replace_pending (zip (pending bt) ts) content (cache bt)") auto
  have bt': "snd (fst (process_batches B content bt \<sigma>)) = bt\<lparr>cache := k', pending := []\<rparr>"
    using False t r by (simp add: process_batches_def Let_def)
  have "fst ` set (zip (pending bt) ts) \<subseteq> set (pending bt)"
    by (auto dest: set_zip_leftD)
  then have "pending_original ` fst ` set (zip (pending bt) ts) \<subseteq> dom (cache bt)"
    using assms by blast
  then have "dom k' = dom (cache bt)"
    using replace_pending_dom [of "zip (pending bt) ts" content "cache bt"] r by auto
  then show ?thesis by (simp add: bt')
qed

lemma main_ru_inputs:
  "batch_inputs (fst (snd (main_ru U B available html \<sigma>))) =
     (if available then map strip (dedup {} (filter sendable (run_segments U B available html \<sigma>))) else [])"
proof -
  obtain h2 styles where s1: "protect_blocks (switch_lang_ru U html) (py ''style'') = (h2, styles)"
    by (cases "protect_blocks (switch_lang_ru U html) (py ''style'')") auto
  obtain h3 scripts where s2: "protect_blocks h2 (py ''script'') = (h3, scripts)"
    by (cases "protect_blocks h2 (py ''script'')") auto
  define bt0 where "bt0 = new_translator available"
  define A where "A = attr_segments attrs h3 bt0"
  obtain c1 b1 where s3: "translate_attrs_loop attrs h3 bt0 = (c1, b1)"
    by (cases "translate_attrs_loop attrs h3 bt0") auto
  obtain h4 bt1 log1 \<sigma>1 where s4: "process_batches B c1 b1 \<sigma> = ((h4, bt1), log1, \<sigma>1)"
    by (cases "process_batches B c1 b1 \<sigma>") auto
  define T where "T = text_segments h4"
  obtain c2 b2 where s5: "re_sub_st m_text repl_inner h4 bt1 = (c2, b2)"
    by (cases "re_sub_st m_text repl_inner h4 bt1") auto
  obtain h5 bt2 log2 \<sigma>2 where s6: "process_batches B c2 b2 \<sigma>1 = ((h5, bt2), log2, \<sigma>2)"
    by (cases "process_batches B c2 b2 \<sigma>1") auto
  have ta: "translate_attributes B h3 bt0 \<sigma> = ((h4, bt1), log1, \<sigma>1)"
    using s3 s4 by (simp add: translate_attributes_def)
  have log: "fst (snd (main_ru U B available html \<sigma>)) = log1 @ log2"
    using s1 s2 ta s5 s6 by (simp add: main_ru_def Let_def translate_textnodes_def bt0_def)
  have segs: "run_segments U B available html \<sigma> = A @ T"
    using s1 s2 ta by (simp add: run_segments_def A_def T_def bt0_def)
  have e0: "pending bt0 = []" "dom (cache bt0) = {}" "has_tr bt0 = available"
    by (simp_all add: bt0_def new_translator_def)
  have b1: "b1 = feed A bt0" using attrs_loop_feed [of attrs h3 bt0] s3 by (simp add: A_def)
  have o1: "map pending_original (pending b1) = dedup {} (filter sendable A)"
    unfolding b1 by (simp add: feed_pending e0)
  have k1: "\<forall>p \<in> set (pending b1). pending_core p = strip (pending_original p)"
    unfolding b1 by (rule feed_cores) (simp add: e0)
  have d1: "dom (cache b1) = set A" unfolding b1 by (simp add: feed_dom e0)
  have t1: "has_tr b1 = available" unfolding b1 by (simp add: feed_has_tr e0)
  have "set (map pending_original (pending b1)) \<subseteq> set A" unfolding o1 by (auto simp: dedup_set)
  then have sub: "pending_original ` set (pending b1) \<subseteq> dom (cache b1)" using d1 by simp
  have bt1: "bt1 = snd (fst (process_batches B c1 b1 \<sigma>))" using s4 by simp
  have dt1: "dom (cache bt1) = set A" unfolding bt1 using process_batches_dom [OF sub] d1 by simp
  have p1: "pending bt1 = []" "has_tr bt1 = available"
    using process_batches_inputs [OF s4] t1 by simp_all
  have b2: "b2 = feed T bt1" using text_scan_feed [of h4 bt1] s5 by (simp add: T_def text_scan_def)
  have o2: "map pending_original (pending b2) = dedup (set A) (filter sendable T)"
    unfolding b2 by (simp add: feed_pending p1 dt1)
  have k2: "\<forall>p \<in> set (pending b2). pending_core p = strip (pending_original p)"
    unfolding b2 by (rule feed_cores) (simp add: p1)
  have t2: "has_tr b2 = available" unfolding b2 by (simp add: feed_has_tr p1)
  have c1: "map pending_core (pending b1) = map strip (dedup {} (filter sendable A))"
    using k1 o1 [symmetric] by simp
  have c2: "map pending_core (pending b2) = map strip (dedup (set A) (filter sendable T))"
    using k2 o2 [symmetric] by simp
  have "dedup (set A) (filter sendable T) = dedup ({} \<union> set (filter sendable A)) (filter sendable T)"
    by (rule dedup_cong) auto
  then have all: "dedup {} (filter sendable A @ filter sendable T) =
      dedup {} (filter sendable A) @ dedup (set A) (filter sendable T)"
    by (simp add: dedup_append)
  have "batch_inputs (log1 @ log2) =
      (if available then map strip (dedup {} (filter sendable (A @ T))) else [])"
    using process_batches_inputs [OF s4] process_batches_inputs [OF s6] t1 t2
    by (simp add: batch_inputs_append all c1 c2)
  then show ?thesis unfolding log segs .
qed

lemma main_inputs:
  "batch_inputs (fst (snd (main U B html \<sigma>))) =
     uniq (find_text_nodes U (fst (make_placeholders U html)) @
           map (\<lambda>(a, q, v). v) (find_attr_values U (fst (make_placeholders U html))))"
proof -
  obtain ph pl where p: "make_placeholders U html = (ph, pl)" by (cases "make_placeholders U html") auto
  let ?all = "find_text_nodes U ph @ map (\<lambda>(a, q, v). v) (find_attr_values U ph)"
  show ?thesis
  proof (cases "?all = []")
    case True
    then show ?thesis using p by (simp add: main_def Let_def uniq_def)
  next
    case False
    obtain m log s' where b: "batch_translate B ?all \<sigma> = (m, log, s')"
      by (cases "batch_translate B ?all \<sigma>") auto
    have "fst (snd (main U B html \<sigma>)) = log" using p False b by (auto simp: main_def Let_def)
    then show ?thesis using batch_translate_inputs [OF b] p by simp
  qed
qed





text \<open>Evaluation of the notions above on concrete texts.\<close>

lemma scans_alone_code:
  "scans_alone m P Y =
     list_all (\<lambda>i. m (drop i P @ Y) = m (drop i P) \<and>
                 (case m (drop i P) of None \<Rightarrow> True | Some (n, g) \<Rightarrow> i + n \<le> length P))
       [0..<length P]"
  by (auto simp: scans_alone_def list_all_iff)


lemmas ev_scan = scans_alone_code attr_scan_def text_scan_def write_back_def

lemmas ev_seg = run_segments_def latin_values_def text_segments_def

subsection \<open>Segments with a marker\<close>






subsection \<open>Attribute names matched as suffixes\<close>







subsection \<open>De-duplication in a run\<close>

text \<open>
  Claim C1 fails as stated: in translate_html_ru.py the key of de-duplication is the
  segment string as it was extracted, whitespace included, not its stripped core.  The
  two text nodes \<open>Ciao\<close> and \<open> Ciao\<close> are two cache entries, and the backend is given the
  core \<open>Ciao\<close> twice in one batch.
\<close>

theorem ru_same_core_sent_twice:
  "batch_inputs (fst (snd (main_ru ascii_tables identity_backend True (py ''<p>Ciao</p><p> Ciao</p>'') ()))) =
     [py ''Ciao'', py ''Ciao'']"
  by (simp add: ev_re ev_ru identity_backend_def)

text \<open>
  Claim C1 as amended.  In translate_html.py the items handed to \<open>translate_batch\<close> are
  the distinct input strings of \<open>batch_translate\<close> in first-seen order; in a run they are
  the distinct strings among the text nodes and attribute values found, so no two items
  of a run are equal and a text that occurs several times is handed over once.  In a run
  of translate_html_ru.py with a translator, the items handed to \<open>translate_batch\<close> are
  the stripped cores of the distinct sendable strings among the segments of the run
  (attribute values, then text nodes), in first-seen order: one item for each distinct
  segment string, so a segment string that occurs several times is sent once, and a
  core is sent once for each distinct segment string that has it.  Without a translator
  nothing is sent.
\<close>

theorem dedup_by_segment_string:
  "batch_inputs (fst (snd (batch_translate B strings \<sigma>))) = uniq strings \<and>
   distinct (uniq strings) \<and> set (uniq strings) = set strings \<and>
   batch_inputs (fst (snd (main U B html \<sigma>))) =
     uniq (find_text_nodes U (fst (make_placeholders U html)) @
           map (\<lambda>(a, q, v). v) (find_attr_values U (fst (make_placeholders U html)))) \<and>
   distinct (batch_inputs (fst (snd (main U B html \<sigma>)))) \<and>
   batch_inputs (fst (snd (main_ru U B' available html' \<sigma>'))) =
     (if available then map strip (dedup {} (filter sendable (run_segments U B' available html' \<sigma>')))
      else []) \<and>
   distinct (dedup {} (filter sendable (run_segments U B' available html' \<sigma>')))"
proof -
  have 1: "batch_inputs (fst (snd (batch_translate B strings \<sigma>))) = uniq strings"
    using batch_translate_inputs [of B strings \<sigma>] by (cases "batch_translate B strings \<sigma>") auto
  have 2: "batch_inputs (fst (snd (main U B html \<sigma>))) =
     uniq (find_text_nodes U (fst (make_placeholders U html)) @
           map (\<lambda>(a, q, v). v) (find_attr_values U (fst (make_placeholders U html))))"
    by (rule main_inputs)
  have 3: "distinct (batch_inputs (fst (snd (main U B html \<sigma>))))" unfolding 2 by (rule uniq_distinct)
  have 4: "batch_inputs (fst (snd (main_ru U B' available html' \<sigma>'))) =
     (if available then map strip (dedup {} (filter sendable (run_segments U B' available html' \<sigma>')))
      else [])"
    by (rule main_ru_inputs)
  show ?thesis using 1 2 3 4 by (simp add: uniq_set uniq_distinct dedup_distinct)
qed


theorem dedup_by_segment_string_witness:
  "map strip (dedup {} (filter sendable (run_segments ascii_tables identity_backend True
      (py ''<a title='' @ [34] @ py ''Ciao'' @ [34] @ py '' alt='' @ [34] @ py '' Ciao'' @ [34] @ py ''>Ciao</a><p>Ciao</p>'') ()))) =
     [py ''Ciao'', py ''Ciao''] \<and>
   batch_inputs (fst (snd (main_ru ascii_tables identity_backend True
      (py ''<a title='' @ [34] @ py ''Ciao'' @ [34] @ py '' alt='' @ [34] @ py '' Ciao'' @ [34] @ py ''>Ciao</a><p>Ciao</p>'') ()))) =
     [py ''Ciao'', py ''Ciao'']"
proof -
  let ?doc = "py ''<a title='' @ [34] @ py ''Ciao'' @ [34] @ py '' alt='' @ [34] @ py '' Ciao'' @ [34] @ py ''>Ciao</a><p>Ciao</p>''"
  have r: "run_segments ascii_tables identity_backend True ?doc () =
      [py '' Ciao'', py ''Ciao'', py ''Ciao'', py ''Ciao'']"
    by (simp add: ev_seg ev_scan ev_re ev_ru identity_backend_def)
  have e: "map strip (dedup {} (filter sendable (run_segments ascii_tables identity_backend True ?doc ()))) =
     [py ''Ciao'', py ''Ciao'']"
    unfolding r by (simp add: ev_re ev_ru sendable_def has_marker_def)
  show ?thesis
    using dedup_by_segment_string [of identity_backend "[]" "()" ascii_tables "[]" identity_backend True ?doc "()"] e
    by simp
qed

end
